theory Spec2Isabelle
  imports
    Main
    "HOL-Library.AList"
    "HOL-Library.Char_ord"
    "HOL-Library.List_Lexorder"
    "HOL-Library.Product_Lexorder"
begin

section \<open>Python values used by bot.py\<close>

text \<open>
  The bot is a single Python file, \<^verbatim>\<open>bot.py\<close>. Its dictionaries keep their insertion order
  and are iterated in that order, so a \<^verbatim>\<open>dict\<close> is modelled as an association list whose
  keys are distinct: \<^const>\<open>map_of\<close> is a lookup, \<^const>\<open>AList.update\<close> is an assignment
  \<^verbatim>\<open>d[k] = v\<close> (in place for a key that is there, at the end for a new one) and
  \<^const>\<open>AList.delete\<close> is \<^verbatim>\<open>d.pop(k, None)\<close>. Tuples are compared as Python compares
  them, lexicographically, and so are strings, by code point. A character stands for
  the code point with its number, so the strings of the model are the Python strings
  whose code points are below 256.
\<close>

subsection \<open>Calendar dates (\<^verbatim>\<open>datetime.date\<close>)\<close>

record date =
  d_year :: int
  d_month :: int
  d_day :: int

definition is_leap :: "int \<Rightarrow> bool" where
  "is_leap y = (y mod 4 = 0 \<and> (y mod 100 \<noteq> 0 \<or> y mod 400 = 0))"

definition days_in_month_tab :: "int list" where
  "days_in_month_tab = [31, 28, 31, 30, 31, 30, 31, 31, 30, 31, 30, 31]"

definition days_before_month_tab :: "int list" where
  "days_before_month_tab = [0, 31, 59, 90, 120, 151, 181, 212, 243, 273, 304, 334]"

definition days_in_month :: "int \<Rightarrow> int \<Rightarrow> int" where
  "days_in_month y m =
     (if m = 2 \<and> is_leap y then 29 else days_in_month_tab ! nat (m - 1))"

definition days_before_year :: "int \<Rightarrow> int" where
  "days_before_year y = (y - 1) * 365 + (y - 1) div 4 - (y - 1) div 100 + (y - 1) div 400"

definition days_before_month :: "int \<Rightarrow> int \<Rightarrow> int" where
  "days_before_month y m =
     days_before_month_tab ! nat (m - 1) + (if 2 < m \<and> is_leap y then 1 else 0)"

text \<open>The dates a \<^verbatim>\<open>date\<close> object can hold: \<^verbatim>\<open>date(y, m, d)\<close> raises \<^verbatim>\<open>ValueError\<close> otherwise.\<close>

definition valid_date :: "date \<Rightarrow> bool" where
  "valid_date d =
     (1 \<le> d_year d \<and> d_year d \<le> 9999 \<and> 1 \<le> d_month d \<and> d_month d \<le> 12 \<and>
      1 \<le> d_day d \<and> d_day d \<le> days_in_month (d_year d) (d_month d))"

definition date_new :: "int \<Rightarrow> int \<Rightarrow> int \<Rightarrow> date option" where
  "date_new y m d =
     (let r = \<lparr>d_year = y, d_month = m, d_day = d\<rparr>
      in if valid_date r then Some r else None)"

definition toordinal :: "date \<Rightarrow> int" where
  "toordinal d = days_before_year (d_year d) + days_before_month (d_year d) (d_month d) + d_day d"

text \<open>\<^verbatim>\<open>a < b\<close> on dates compares the tuples \<^verbatim>\<open>(year, month, day)\<close>.\<close>

definition date_less :: "date \<Rightarrow> date \<Rightarrow> bool" where
  "date_less a b = ((d_year a, d_month a, d_day a) < (d_year b, d_month b, d_day b))"

text \<open>
  \<^verbatim>\<open>d + timedelta(days=1)\<close>: the next calendar day; \<^verbatim>\<open>OverflowError\<close> (here \<open>None\<close>)
  past 9999-12-31.
\<close>

definition next_day :: "date \<Rightarrow> date option" where
  "next_day d =
     (if d_day d < days_in_month (d_year d) (d_month d) then Some (d\<lparr>d_day := d_day d + 1\<rparr>)
      else if d_month d < 12 then Some (d\<lparr>d_month := d_month d + 1, d_day := 1\<rparr>)
      else if d_year d < 9999 then Some \<lparr>d_year = d_year d + 1, d_month = 1, d_day = 1\<rparr>
      else None)"

subsection \<open>Times of day (\<^verbatim>\<open>datetime.time\<close>, built by \<^verbatim>\<open>dtime(hh, mm)\<close>)\<close>

record dtime =
  t_hour :: int
  t_minute :: int

definition dtime_new :: "int \<Rightarrow> int \<Rightarrow> dtime option" where
  "dtime_new h m =
     (if 0 \<le> h \<and> h \<le> 23 \<and> 0 \<le> m \<and> m \<le> 59 then Some \<lparr>t_hour = h, t_minute = m\<rparr> else None)"

subsection \<open>Strings\<close>

definition digit_char :: "nat \<Rightarrow> char" where
  "digit_char n = char_of (48 + n)"

fun digits_of :: "nat \<Rightarrow> string" where
  "digits_of n = (if n < 10 then [digit_char n] else digits_of (n div 10) @ [digit_char (n mod 10)])"

declare digits_of.simps [simp del]

text \<open>\<^verbatim>\<open>str(i)\<close> and the format \<^verbatim>\<open>%0wd\<close> (for a number that is not negative).\<close>

definition str_int :: "int \<Rightarrow> string" where
  "str_int i = (if i < 0 then CHR ''-'' # digits_of (nat (- i)) else digits_of (nat i))"

definition zero_pad :: "nat \<Rightarrow> int \<Rightarrow> string" where
  "zero_pad w i = (let s = digits_of (nat i) in replicate (w - length s) CHR ''0'' @ s)"

text \<open>\<^verbatim>\<open>date.isoformat()\<close> is \<^verbatim>\<open>"%04d-%02d-%02d" % (year, month, day)\<close>.\<close>

definition isoformat :: "date \<Rightarrow> string" where
  "isoformat d = zero_pad 4 (d_year d) @ ''-'' @ zero_pad 2 (d_month d) @ ''-'' @ zero_pad 2 (d_day d)"

text \<open>
  A character of a string stands for the code point with its number, so the strings of
  the model are the Python strings whose code points are below 256. Among these,
  \<^verbatim>\<open>str.strip()\<close> removes the characters for which \<^verbatim>\<open>str.isspace()\<close> holds, which are the
  ASCII white space, the separators U+001C to U+001F, U+0085 and U+00A0; and
  \<^verbatim>\<open>str.splitlines()\<close> ends a line at U+000A to U+000D, U+001C to U+001E and U+0085.
\<close>

definition is_space :: "char \<Rightarrow> bool" where
  "is_space c = ((of_char c :: nat) \<in> set [9, 10, 11, 12, 13, 28, 29, 30, 31, 32, 133, 160])"

definition is_linebreak :: "char \<Rightarrow> bool" where
  "is_linebreak c = ((of_char c :: nat) \<in> set [10, 11, 12, 13, 28, 29, 30, 133])"

definition strip :: "string \<Rightarrow> string" where
  "strip s = rev (dropWhile is_space (rev (dropWhile is_space s)))"

definition startswith :: "string \<Rightarrow> string \<Rightarrow> bool" where
  "startswith s p = (take (length p) s = p)"

text \<open>\<^verbatim>\<open>s.split(sep)\<close> for a separator of one character: always at least one part.\<close>

fun split_from :: "char \<Rightarrow> string \<Rightarrow> string \<Rightarrow> string list" where
  "split_from sep cur [] = [cur]"
| "split_from sep cur (c # cs) =
     (if c = sep then cur # split_from sep [] cs else split_from sep (cur @ [c]) cs)"

definition str_split :: "char \<Rightarrow> string \<Rightarrow> string list" where
  "str_split sep s = split_from sep [] s"

text \<open>
  \<^verbatim>\<open>text.splitlines()\<close>: a carriage return followed by a line feed is one boundary, and
  a boundary at the very end opens no further line.
\<close>

fun splitlines_from :: "string \<Rightarrow> string \<Rightarrow> string list" where
  "splitlines_from cur [] = (if cur = [] then [] else [cur])"
| "splitlines_from cur [c] =
     (if is_linebreak c then [cur] else [cur @ [c]])"
| "splitlines_from cur (c # c' # cs) =
     (if of_char c = (13 :: nat) \<and> of_char c' = (10 :: nat) then cur # splitlines_from [] cs
      else if is_linebreak c then cur # splitlines_from [] (c' # cs)
      else splitlines_from (cur @ [c]) (c' # cs))"

definition splitlines :: "string \<Rightarrow> string list" where
  "splitlines s = splitlines_from [] s"

text \<open>
  \<^verbatim>\<open>int(s)\<close> on a string. The white space dropped around the number is not that of
  \<^verbatim>\<open>str.strip()\<close>: it is the white space of C (U+0009 to U+000D and the blank) and the
  white space that is not ASCII, so that the separators U+001C to U+001F make \<^verbatim>\<open>int\<close>
  fail. One sign may lead, single underscores may stand between digits, and the only
  decimal digits below U+0100 are the ASCII ones. A number of more than
  \<^verbatim>\<open>sys.int_info.default_max_str_digits\<close> digits is refused. \<open>None\<close> is \<^verbatim>\<open>ValueError\<close>.
\<close>

definition is_digit :: "char \<Rightarrow> bool" where
  "is_digit c = (48 \<le> (of_char c :: nat) \<and> (of_char c :: nat) \<le> 57)"

definition digit_val :: "char \<Rightarrow> nat" where
  "digit_val c = of_char c - 48"

definition is_int_space :: "char \<Rightarrow> bool" where
  "is_int_space c = ((of_char c :: nat) \<in> set [9, 10, 11, 12, 13, 32, 133, 160])"

definition int_strip :: "string \<Rightarrow> string" where
  "int_strip s = rev (dropWhile is_int_space (rev (dropWhile is_int_space s)))"

definition default_max_str_digits :: nat where
  "default_max_str_digits = 4300"

fun int_body :: "nat \<Rightarrow> bool \<Rightarrow> string \<Rightarrow> nat option" where
  "int_body acc after_digit [] = (if after_digit then Some acc else None)"
| "int_body acc after_digit (c # cs) =
     (if is_digit c then int_body (10 * acc + digit_val c) True cs
      else if c = CHR ''_'' \<and> after_digit then int_body acc False cs
      else None)"

definition py_int :: "string \<Rightarrow> int option" where
  "py_int s =
     (case int_strip s of
        [] \<Rightarrow> None
      | c # cs \<Rightarrow>
          let body = (if c = CHR ''-'' \<or> c = CHR ''+'' then cs else c # cs) in
          if default_max_str_digits < length (filter is_digit body) then None
          else if c = CHR ''-'' then map_option (\<lambda>n. - int n) (int_body 0 False body)
          else map_option int (int_body 0 False body))"

text \<open>
  \<^verbatim>\<open>date.fromisoformat(s)\<close>, as CPython reads it from version 3.11 on (before, only the
  first of the formats below was read). The string is taken as its UTF-8 bytes, which must
  be 7, 8 or 10. Four digits give the year; a hyphen after them says that the parts are
  separated by hyphens. Then come either \<^verbatim>\<open>W\<close>, the two digits of an ISO week and, if
  bytes are left, the digit of a day of the week, or the two digits of a month and the two
  digits of a day; what follows is not looked at. So \<^verbatim>\<open>YYYY-MM-DD\<close>, \<^verbatim>\<open>YYYYMMDD\<close>,
  \<^verbatim>\<open>YYYY-Www\<close>, \<^verbatim>\<open>YYYYWww\<close>, \<^verbatim>\<open>YYYY-Www-D\<close> and \<^verbatim>\<open>YYYYWwwD\<close> are read. \<open>None\<close> is
  \<^verbatim>\<open>ValueError\<close>, the one of \<^verbatim>\<open>date(y, m, d)\<close> included.
\<close>

definition utf8 :: "string \<Rightarrow> string" where
  "utf8 s =
     concat (map (\<lambda>c. if (of_char c :: nat) < 128 then [c]
                       else [char_of (192 + (of_char c :: nat) div 64),
                             char_of (128 + (of_char c :: nat) mod 64)]) s)"

definition digits_val :: "string \<Rightarrow> int" where
  "digits_val s = int (foldl (\<lambda>acc c. 10 * acc + digit_val c) 0 s)"

text \<open>\<^verbatim>\<open>parse_digits\<close>: the number written by the next \<open>n\<close> bytes, and the bytes after them.\<close>

definition parse_digits :: "nat \<Rightarrow> string \<Rightarrow> (int \<times> string) option" where
  "parse_digits n p =
     (if n \<le> length p \<and> list_all is_digit (take n p)
      then Some (digits_val (take n p), drop n p) else None)"

text \<open>
  \<^verbatim>\<open>ord_to_ymd\<close>: the date with a given ordinal, for an ordinal from 1 on, by the
  cycles of 400, 100, 4 and 1 years.
\<close>

definition ord_to_ymd :: "int \<Rightarrow> date" where
  "ord_to_ymd ordinal =
     (let n = ordinal - 1;
          n400 = n div 146097; r400 = n mod 146097;
          n100 = r400 div 36524; r100 = r400 mod 36524;
          n4 = r100 div 1461; r4 = r100 mod 1461;
          n1 = r4 div 365; r1 = r4 mod 365;
          year = n400 * 400 + 1 + n100 * 100 + n4 * 4 + n1
      in if n1 = 4 \<or> n100 = 4 then \<lparr>d_year = year - 1, d_month = 12, d_day = 31\<rparr>
         else
           let leapyear = (n1 = 3 \<and> (n4 \<noteq> 24 \<or> n100 = 3));
               month = (r1 + 50) div 32;
               preceding = days_before_month_tab ! nat (month - 1) +
                           (if 2 < month \<and> leapyear then 1 else 0)
           in if r1 < preceding
              then \<lparr>d_year = year, d_month = month - 1,
                    d_day = r1 - (preceding - days_in_month year (month - 1)) + 1\<rparr>
              else \<lparr>d_year = year, d_month = month, d_day = r1 - preceding + 1\<rparr>)"

text \<open>
  \<^verbatim>\<open>iso_week1_monday\<close>: the ordinal of the Monday that opens the first ISO week of a year.
  \<^verbatim>\<open>iso_to_ymd\<close> refuses a week that is not from 1 to 52, but for week 53 of a year that
  has one, and a day that is not from 1 to 7; the date it finds goes through the checks of
  \<^verbatim>\<open>date(y, m, d)\<close>, which refuse whatever comes before 0001-01-01 or after 9999-12-31.
\<close>

definition iso_week1_monday :: "int \<Rightarrow> int" where
  "iso_week1_monday year =
     (let first_day = days_before_year year + 1;
          first_weekday = (first_day + 6) mod 7;
          week1_monday = first_day - first_weekday
      in if 3 < first_weekday then week1_monday + 7 else week1_monday)"

definition iso_to_ymd :: "int \<Rightarrow> int \<Rightarrow> int \<Rightarrow> date option" where
  "iso_to_ymd iso_year iso_week iso_day =
     (let first_weekday = (days_before_year iso_year + 1 + 6) mod 7;
          long_year = (first_weekday = 3 \<or> first_weekday = 2 \<and> is_leap iso_year)
      in if (iso_week \<le> 0 \<or> 53 \<le> iso_week) \<and> \<not> (iso_week = 53 \<and> long_year) then None
         else if iso_day \<le> 0 \<or> 8 \<le> iso_day then None
         else
           let ordinal = iso_week1_monday iso_year + (iso_week - 1) * 7 + iso_day - 1 in
           if ordinal < 1 then None
           else
             let r = ord_to_ymd ordinal in date_new (d_year r) (d_month r) (d_day r))"

definition fromisoformat :: "string \<Rightarrow> date option" where
  "fromisoformat s =
     (let dtstr = utf8 s in
      if length dtstr \<noteq> 7 \<and> length dtstr \<noteq> 8 \<and> length dtstr \<noteq> 10 then None
      else
        (case parse_digits 4 dtstr of
           None \<Rightarrow> None
         | Some (year, p) \<Rightarrow>
             let uses_separator = startswith p ''-'';
                 p = (if uses_separator then tl p else p)
             in
               if startswith p ''W'' then
                 (case parse_digits 2 (tl p) of
                    None \<Rightarrow> None
                  | Some (iso_week, p) \<Rightarrow>
                      if p = [] then iso_to_ymd year iso_week 1
                      else if uses_separator \<and> \<not> startswith p ''-'' then None
                      else
                        (case parse_digits 1 (if uses_separator then tl p else p) of
                           None \<Rightarrow> None
                         | Some (iso_day, rest) \<Rightarrow> iso_to_ymd year iso_week iso_day))
               else
                 (case parse_digits 2 p of
                    None \<Rightarrow> None
                  | Some (month, p) \<Rightarrow>
                      if uses_separator \<and> \<not> startswith p ''-'' then None
                      else
                        (case parse_digits 2 (if uses_separator then tl p else p) of
                           None \<Rightarrow> None
                         | Some (day, rest) \<Rightarrow> date_new year month day))))"

section \<open>The time table (\<^verbatim>\<open>time.txt\<close>)\<close>

type_synonym schedule = "(date \<times> (dtime \<times> dtime)) list"

text \<open>
  \<^verbatim>\<open>parse_time_hhmm\<close>: \<^verbatim>\<open>hh, mm = s.strip().split(":")\<close> raises unless there are exactly
  two parts, and so do \<^verbatim>\<open>int\<close> and \<^verbatim>\<open>dtime\<close> on what they do not accept.
\<close>

definition parse_time_hhmm :: "string \<Rightarrow> dtime option" where
  "parse_time_hhmm s =
     (case str_split CHR '':'' (strip s) of
        [hh, mm] \<Rightarrow>
          (case py_int hh of
             None \<Rightarrow> None
           | Some h \<Rightarrow> (case py_int mm of None \<Rightarrow> None | Some m \<Rightarrow> dtime_new h m))
      | _ \<Rightarrow> None)"

text \<open>
  One turn of the loop of \<^verbatim>\<open>load_schedule\<close> over the lines of the file. Every
  \<^verbatim>\<open>continue\<close> of the source, the one in the \<^verbatim>\<open>except Exception\<close> handler included,
  leaves the table as it is.
\<close>

definition schedule_row :: "schedule \<Rightarrow> string \<Rightarrow> schedule" where
  "schedule_row schedule raw =
     (let line = strip raw in
      if line = [] \<or> startswith line ''#'' then schedule
      else
        let parts = map strip (str_split CHR '';'' line) in
        if length parts < 3 then schedule
        else
          (case fromisoformat (parts ! 0) of
             None \<Rightarrow> schedule
           | Some row_day \<Rightarrow>
               (case parse_time_hhmm (parts ! 1) of
                  None \<Rightarrow> schedule
                | Some sah \<Rightarrow>
                    (case parse_time_hhmm (parts ! 2) of
                       None \<Rightarrow> schedule
                     | Some ift \<Rightarrow> AList.update row_day (sah, ift) schedule))))"

text \<open>
  The file is a parameter: \<open>None\<close> when \<^verbatim>\<open>time.txt\<close> does not exist, otherwise the text
  that \<^verbatim>\<open>read_text(encoding="utf-8")\<close> returns.
\<close>

definition load_schedule :: "string option \<Rightarrow> schedule" where
  "load_schedule time_file =
     (case time_file of
        None \<Rightarrow> []
      | Some text \<Rightarrow> foldl schedule_row [] (splitlines text))"



definition load_day_times :: "string option \<Rightarrow> date \<Rightarrow> (dtime \<times> dtime) option" where
  "load_day_times time_file target_date = map_of (load_schedule time_file) target_date"

text \<open>
  Python's \<^verbatim>\<open>min(xs, key=f)\<close> keeps the first element whose key is least: a later
  element replaces the best one only when its key is strictly smaller. On an empty
  sequence it raises (\<open>None\<close>).
\<close>

primrec min_from :: "('a \<Rightarrow> 'k::linorder) \<Rightarrow> 'a \<Rightarrow> 'a list \<Rightarrow> 'a" where
  "min_from f best [] = best"
| "min_from f best (x # xs) = min_from f (if f x < f best then x else best) xs"

definition py_min :: "('a \<Rightarrow> 'k::linorder) \<Rightarrow> 'a list \<Rightarrow> 'a option" where
  "py_min f xs = (case xs of [] \<Rightarrow> None | x # rest \<Rightarrow> Some (min_from f x rest))"

text \<open>
  The sort key of \<^verbatim>\<open>find_nearest_day_times\<close>:
  \<^verbatim>\<open>(abs((d - target_date).days), 0 if d > target_date else 1, d.toordinal())\<close>.
\<close>

definition nearest_key :: "date \<Rightarrow> date \<Rightarrow> int \<times> int \<times> int" where
  "nearest_key target_date d =
     (\<bar>toordinal d - toordinal target_date\<bar>,
      if date_less target_date d then 0 else 1,
      toordinal d)"

definition find_nearest_day_times ::
  "string option \<Rightarrow> date \<Rightarrow> (date \<times> (dtime \<times> dtime)) option" where
  "find_nearest_day_times time_file target_date =
     (let schedule = load_schedule time_file in
      if schedule = [] then None
      else
        (case py_min (nearest_key target_date) (map fst schedule) of
           None \<Rightarrow> None
         | Some nearest_day \<Rightarrow>
             (case map_of schedule nearest_day of
                None \<Rightarrow> None
              | Some day_times \<Rightarrow> Some (nearest_day, day_times))))"

definition resolve_day_times ::
  "string option \<Rightarrow> date \<Rightarrow> (date \<times> dtime \<times> dtime \<times> bool) option" where
  "resolve_day_times time_file target_date =
     (case load_day_times time_file target_date of
        Some (sah, ift) \<Rightarrow> Some (target_date, sah, ift, True)
      | None \<Rightarrow>
          (case find_nearest_day_times time_file target_date of
             None \<Rightarrow> None
           | Some (nearest_day, (sah, ift)) \<Rightarrow> Some (nearest_day, sah, ift, False)))"

text \<open>
  What every table built by \<^verbatim>\<open>load_schedule\<close> satisfies: one entry per date, and only
  dates a \<^verbatim>\<open>date\<close> object can hold.
\<close>

definition schedule_ok :: "schedule \<Rightarrow> bool" where
  "schedule_ok sch \<longleftrightarrow> distinct (map fst sch) \<and> list_all valid_date (map fst sch)"

text \<open>A time table with two rows, used in the examples.\<close>

definition two_day_table :: "string option" where
  "two_day_table =
     Some (''2024-03-03;04:50;18:20'' @ [CHR 0x0A] @ ''2024-03-07;04:45;18:24'' @ [CHR 0x0A])"

section \<open>Users and the ledger of sent notifications\<close>

text \<open>
  A preset is the dictionary \<^verbatim>\<open>{"iftar": [...], "saharlik": [...]}\<close> of lead times in
  minutes; \<^verbatim>\<open>PRESETS\<close> maps the preset names to them.
\<close>

record reminder_preset =
  iftar :: "int list"
  saharlik :: "int list"

definition PRESETS :: "(string \<times> reminder_preset) list" where
  "PRESETS =
     [(''full'', \<lparr>iftar = [30, 15, 10, 5, 1], saharlik = [5]\<rparr>),
      (''short'', \<lparr>iftar = [10, 5, 1], saharlik = [5]\<rparr>),
      (''minimal'', \<lparr>iftar = [5, 1], saharlik = [5]\<rparr>)]"

definition DEFAULT_PRESET :: string where
  "DEFAULT_PRESET = ''full''"

definition NIGHT_MESSAGE_AT :: string where
  "NIGHT_MESSAGE_AT = ''22:00''"

definition MORNING_MESSAGE_AT :: string where
  "MORNING_MESSAGE_AT = ''08:30''"

text \<open>
  The dataclass \<^verbatim>\<open>UserSettings\<close>. The ledger \<^verbatim>\<open>sent_keys\<close> maps the ISO string of a day
  to the list of the notification keys sent on that day.
\<close>

type_synonym ledger = "(string \<times> string list) list"

record UserSettings =
  enabled :: bool
  preset :: string
  morning_time :: string
  night_time :: string
  sent_keys :: ledger

text \<open>\<^verbatim>\<open>UserSettings()\<close>: the defaults, with the empty ledger of \<^verbatim>\<open>__post_init__\<close>.\<close>

definition UserSettings_default :: UserSettings where
  "UserSettings_default =
     \<lparr>enabled = True, preset = DEFAULT_PRESET, morning_time = MORNING_MESSAGE_AT,
      night_time = NIGHT_MESSAGE_AT, sent_keys = []\<rparr>"

text \<open>
  What the bot sends. The texts are built from the time table, the prayer files and the
  clock's seconds; the model keeps which message it is, and for the two digests whether
  the day they describe has an entry in the table (\<open>False\<close>: the "not found" text).
\<close>

datatype notification =
    MorningDigest bool
  | NightDigest bool
  | IftarIn int
  | IftarNow
  | SaharlikIn int

text \<open>
  The state the functions below read and write: the global dictionary \<^verbatim>\<open>users\<close>, the
  snapshot in \<^verbatim>\<open>users.json\<close> (\<open>None\<close> while the file does not exist; the JSON text is
  abstracted to the table it encodes) and the messages delivered so far, each with the
  user id it went to.
\<close>

type_synonym user_table = "(string \<times> UserSettings) list"

record world =
  users :: user_table
  users_json :: "user_table option"
  outbox :: "(string \<times> notification) list"

text \<open>
  \<^verbatim>\<open>save_users\<close> writes the whole dictionary to \<^verbatim>\<open>users.json\<close>. The write is taken to
  succeed, and the fields of a record to hold values of the types the dataclass declares.
\<close>

definition save_users :: "world \<Rightarrow> world" where
  "save_users w = w\<lparr>users_json := Some (users w)\<rparr>"

text \<open>
  \<^verbatim>\<open>get_user\<close> returns the object \<^verbatim>\<open>users[uid]\<close>; what the caller then does to that object
  it does to the entry of the dictionary. An unknown id gets the defaults, saved at once;
  a preset name that is not in \<^verbatim>\<open>PRESETS\<close> is replaced in memory, and not saved here.
\<close>

definition fix_preset :: "string \<Rightarrow> UserSettings \<Rightarrow> world \<Rightarrow> UserSettings \<times> world" where
  "fix_preset uid u w =
     (if map_of PRESETS (preset u) = None
      then (u\<lparr>preset := DEFAULT_PRESET\<rparr>,
            w\<lparr>users := AList.update uid (u\<lparr>preset := DEFAULT_PRESET\<rparr>) (users w)\<rparr>)
      else (u, w))"

definition get_user :: "string \<Rightarrow> world \<Rightarrow> UserSettings \<times> world" where
  "get_user uid w =
     (case map_of (users w) uid of
        None \<Rightarrow>
          fix_preset uid UserSettings_default
            (save_users (w\<lparr>users := AList.update uid UserSettings_default (users w)\<rparr>))
      | Some u \<Rightarrow> fix_preset uid u w)"

text \<open>
  The pruning inside \<^verbatim>\<open>mark_sent\<close>: \<^verbatim>\<open>all_days = sorted(u.sent_keys.keys())\<close>, and when
  there are more than ten, every day of \<^verbatim>\<open>all_days[:-10]\<close> is popped.
\<close>

definition prune_days :: "ledger \<Rightarrow> ledger" where
  "prune_days sk =
     (let all_days = sort (map fst sk) in
      if 10 < length all_days
      then foldl (\<lambda>d old. AList.delete old d) sk (take (length all_days - 10) all_days)
      else sk)"

text \<open>\<^verbatim>\<open>sent_keys.get(ds, [])\<close>: the keys marked on a day, none for a day the ledger lacks.\<close>

definition day_keys :: "string \<Rightarrow> ledger \<Rightarrow> string list" where
  "day_keys ds sk = (case map_of sk ds of None \<Rightarrow> [] | Some ks \<Rightarrow> ks)"

definition mark_sent :: "string \<Rightarrow> date \<Rightarrow> string \<Rightarrow> world \<Rightarrow> world" where
  "mark_sent uid day key w =
     (case get_user uid w of
        (u, w1) \<Rightarrow>
          let ds = isoformat day;
              sk1 = (if map_of (sent_keys u) ds = None
                     then AList.update ds [] (sent_keys u) else sent_keys u);
              marked = day_keys ds sk1;
              sk2 = (if key \<notin> set marked
                     then prune_days (AList.update ds (marked @ [key]) sk1) else sk1)
          in save_users (w1\<lparr>users := AList.update uid (u\<lparr>sent_keys := sk2\<rparr>) (users w1)\<rparr>))"

definition was_sent :: "string \<Rightarrow> date \<Rightarrow> string \<Rightarrow> world \<Rightarrow> bool \<times> world" where
  "was_sent uid day key w =
     (case get_user uid w of
        (u, w1) \<Rightarrow>
          (key \<in> set (day_keys (isoformat day) (sent_keys u)), w1))"

text \<open>
  The dictionaries of a state are dictionaries: no user id twice, and no day twice in a
  ledger.
\<close>

definition world_ok :: "world \<Rightarrow> bool" where
  "world_ok w \<longleftrightarrow>
     distinct (map fst (users w)) \<and>
     list_all (\<lambda>entry. distinct (map fst (sent_keys (snd entry)))) (users w)"

text \<open>The ledger of a user, empty for an id the dictionary does not have.\<close>

definition ledger_of :: "string \<Rightarrow> world \<Rightarrow> ledger" where
  "ledger_of uid w = (case map_of (users w) uid of None \<Rightarrow> [] | Some u \<Rightarrow> sent_keys u)"

text \<open>How many days of a ledger come after a given day, in the order of the strings.\<close>

definition later_days :: "string \<Rightarrow> ledger \<Rightarrow> nat" where
  "later_days ds sk = length (filter (\<lambda>other. ds < other) (map fst sk))"

text \<open>
  The days that survive the pruning of a ledger with the days \<open>ks\<close>: the last ten of the
  sorted days. And what \<^verbatim>\<open>mark_sent\<close> does to a ledger, as a function of the ledger alone.
\<close>

definition kept_days :: "string list \<Rightarrow> string list" where
  "kept_days ks = (let all_days = sort ks in drop (length all_days - 10) all_days)"

definition marked_ledger :: "string \<Rightarrow> string \<Rightarrow> ledger \<Rightarrow> ledger" where
  "marked_ledger ds key sk =
     (let marked = day_keys ds sk in
      if key \<in> set marked then sk
      else prune_days (AList.update ds (marked @ [key]) sk))"








text \<open>
  The lead times the loop uses for a user:
  \<^verbatim>\<open>PRESETS.get(u.preset, PRESETS[DEFAULT_PRESET])\<close>. The default is looked up first
  (\<open>None\<close>: \<^verbatim>\<open>KeyError\<close>), whatever the name of the user's preset is.
\<close>

definition preset_lists :: "string \<Rightarrow> reminder_preset option" where
  "preset_lists name =
     (case map_of PRESETS DEFAULT_PRESET of
        None \<Rightarrow> None
      | Some dflt \<Rightarrow> Some (case map_of PRESETS name of None \<Rightarrow> dflt | Some p \<Rightarrow> p))"

text \<open>
  States used in the examples: no user at all; one user whose ledger holds the ten days
  from 2024-03-02 to 2024-03-11; one user whose ledger holds the eleven days from
  2024-03-01 to 2024-03-11, as a \<^verbatim>\<open>users.json\<close> written by hand can provide; and one user
  whose preset has a name that \<^verbatim>\<open>PRESETS\<close> does not know.
\<close>

definition empty_world :: world where
  "empty_world = \<lparr>users = [], users_json = None, outbox = []\<rparr>"

definition march_days :: "int \<Rightarrow> int \<Rightarrow> ledger" where
  "march_days a b =
     map (\<lambda>n. (isoformat \<lparr>d_year = 2024, d_month = 3, d_day = n\<rparr>, [''morning''])) [a..b]"

definition ten_day_world :: world where
  "ten_day_world =
     \<lparr>users = [(''1'', UserSettings_default\<lparr>sent_keys := march_days 2 11\<rparr>)],
      users_json = None, outbox = []\<rparr>"

definition eleven_day_world :: world where
  "eleven_day_world =
     \<lparr>users = [(''1'', UserSettings_default\<lparr>sent_keys := march_days 1 11\<rparr>)],
      users_json = None, outbox = []\<rparr>"

definition odd_preset_world :: world where
  "odd_preset_world =
     \<lparr>users = [(''1'', UserSettings_default\<lparr>preset := ''weekly''\<rparr>)],
      users_json = Some [(''1'', UserSettings_default\<lparr>preset := ''weekly''\<rparr>)],
      outbox = []\<rparr>"

text \<open>
  The most recent ten of a set of days, in the order of the strings: the days that have
  fewer than ten days of the set after them. And a run of calls of \<^verbatim>\<open>mark_sent\<close> for one
  user, one call for each pair of a day and a key, in the order of the list.
\<close>

definition latest_days :: "string set \<Rightarrow> string set" where
  "latest_days S = {x \<in> S. card {y \<in> S. x < y} < 10}"

definition mark_all :: "string \<Rightarrow> (date \<times> string) list \<Rightarrow> world \<Rightarrow> world" where
  "mark_all uid marks w = foldl (\<lambda>w' (day, key). mark_sent uid day key w') w marks"

text \<open>Keys for twelve days of March 2024, the days in no order.\<close>

definition twelve_marks :: "(date \<times> string) list" where
  "twelve_marks =
     map (\<lambda>n. (\<lparr>d_year = 2024, d_month = 3, d_day = n\<rparr>, ''iftar-now''))
       [5, 12, 1, 9, 3, 11, 7, 2, 10, 4, 8, 6]"

section \<open>Calendar arithmetic\<close>

text \<open>
  The ordinal of a date grows with the date: \<^verbatim>\<open>toordinal\<close> is strictly monotone on the
  dates a \<^verbatim>\<open>date\<close> object can hold, so the order of the ordinals is the order of the
  \<^verbatim>\<open>(year, month, day)\<close> tuples.
\<close>

lemma div_pred:
  fixes y k :: int
  assumes "0 < k"
  shows "y div k = (y - 1) div k + (if y mod k = 0 then 1 else 0)"
proof -
  define q where "q = (y - 1) div k"
  define r where "r = (y - 1) mod k"
  have y: "y = k * q + (r + 1)"
    unfolding q_def r_def by simp
  have r: "0 \<le> r" "r < k"
    using assms by (simp_all add: r_def)
  show ?thesis
  proof (cases "r + 1 = k")
    case True
    then have eq: "y = k * (q + 1) + 0"
      using y by (simp add: algebra_simps)
    have "y div k = q + 1"
      by (rule int_div_pos_eq [OF eq]) (use assms in simp_all)
    moreover have "y mod k = 0"
      by (rule int_mod_pos_eq [OF eq]) (use assms in simp_all)
    ultimately show ?thesis
      by (simp add: q_def)
  next
    case False
    then have lt: "r + 1 < k" and nn: "0 \<le> r + 1"
      using r by simp_all
    have "y div k = q"
      using y nn lt by (rule int_div_pos_eq)
    moreover have "y mod k = r + 1"
      using y nn lt by (rule int_mod_pos_eq)
    ultimately show ?thesis
      using r by (simp add: q_def)
  qed
qed


lemma days_before_year_Suc:
  "days_before_year (y + 1) = days_before_year y + (if is_leap y then 366 else 365)"
proof -
  define A where "A = (y - 1) div 4"
  define B where "B = (y - 1) div 100"
  define C where "C = (y - 1) div 400"
  define p4 where "p4 \<longleftrightarrow> y mod 4 = 0"
  define p100 where "p100 \<longleftrightarrow> y mod 100 = 0"
  define p400 where "p400 \<longleftrightarrow> y mod 400 = 0"
  have d4: "y div 4 = A + (if p4 then 1 else 0)"
    unfolding A_def p4_def by (rule div_pred) simp
  have d100: "y div 100 = B + (if p100 then 1 else 0)"
    unfolding B_def p100_def by (rule div_pred) simp
  have d400: "y div 400 = C + (if p400 then 1 else 0)"
    unfolding C_def p400_def by (rule div_pred) simp
  have a: "p4" if "p100"
  proof -
    from that have "100 dvd y" by (simp add: p100_def mod_eq_0_iff_dvd)
    moreover have "(4 :: int) dvd 100" by simp
    ultimately have "4 dvd y" by (rule dvd_trans [rotated])
    then show ?thesis by (simp add: p4_def mod_eq_0_iff_dvd)
  qed
  have b: "p100" if "p400"
  proof -
    from that have "400 dvd y" by (simp add: p400_def mod_eq_0_iff_dvd)
    moreover have "(100 :: int) dvd 400" by simp
    ultimately have "100 dvd y" by (rule dvd_trans [rotated])
    then show ?thesis by (simp add: p100_def mod_eq_0_iff_dvd)
  qed
  have L: "is_leap y \<longleftrightarrow> p4 \<and> (\<not> p100 \<or> p400)"
    by (simp add: is_leap_def p4_def p100_def p400_def)
  have E1: "days_before_year (y + 1) = y * 365 + y div 4 - y div 100 + y div 400"
    by (simp add: days_before_year_def)
  have E2: "days_before_year y = (y - 1) * 365 + A - B + C"
    by (simp add: days_before_year_def A_def B_def C_def)
  show ?thesis
    unfolding E1 E2 L d4 d100 d400
    using a b by (cases p4; cases p100; cases p400; simp)
qed


lemma days_before_year_step:
  "y < y' \<Longrightarrow> days_before_year y + (if is_leap y then 366 else 365) \<le> days_before_year y'"
proof (induction y' rule: int_gr_induct)
  case base
  then show ?case by (simp add: days_before_year_Suc)
next
  case (step i)
  have "days_before_year i \<le> days_before_year (i + 1)"
    by (simp add: days_before_year_Suc)
  with step show ?case by linarith
qed

lemma month_cases:
  "1 \<le> m \<Longrightarrow> m \<le> 12 \<Longrightarrow>
   m = 1 \<or> m = 2 \<or> m = 3 \<or> m = 4 \<or> m = 5 \<or> m = 6 \<or> m = 7 \<or> m = 8 \<or> m = 9 \<or> m = 10 \<or> m = 11 \<or> m = (12::int)"
  by arith

lemmas month_defs =
  days_before_month_def days_in_month_def days_before_month_tab_def days_in_month_tab_def

lemma days_before_month_next:
  assumes "1 \<le> m" "m < 12"
  shows "days_before_month y m + days_in_month y m = days_before_month y (m + 1)"
proof -
  from assms have "1 \<le> m" "m \<le> 12" by simp_all
  from month_cases [OF this] assms(2) show ?thesis
    by (elim disjE; simp add: month_defs)
qed

lemma days_in_month_ge:
  assumes "1 \<le> m" "m \<le> 12"
  shows "28 \<le> days_in_month y m"
  using month_cases [OF assms] by (elim disjE; simp add: month_defs)

lemma days_before_month_nonneg:
  assumes "1 \<le> m" "m \<le> 12"
  shows "0 \<le> days_before_month y m"
  using month_cases [OF assms] by (elim disjE; simp add: month_defs)

lemma days_before_month_mono:
  assumes "m \<le> m'" "1 \<le> m" "m' \<le> 12"
  shows "days_before_month y m \<le> days_before_month y m'"
  using assms
proof (induction m' rule: int_ge_induct)
  case base
  then show ?case by simp
next
  case (step i)
  have "28 \<le> days_in_month y i"
    using step by (intro days_in_month_ge) simp_all
  moreover have "days_before_month y i + days_in_month y i = days_before_month y (i + 1)"
    using step by (intro days_before_month_next) simp_all
  moreover have "days_before_month y m \<le> days_before_month y i"
    using step by simp
  ultimately show ?case by linarith
qed

lemma day_of_year_le:
  assumes "valid_date d"
  shows "days_before_month (d_year d) (d_month d) + d_day d \<le> (if is_leap (d_year d) then 366 else 365)"
proof -
  from assms have m: "1 \<le> d_month d" "d_month d \<le> 12"
    and dd: "d_day d \<le> days_in_month (d_year d) (d_month d)"
    by (simp_all add: valid_date_def)
  from month_cases [OF m] show ?thesis
    using dd
    by (elim disjE; simp add: month_defs split: if_splits)
qed

lemma toordinal_mono:
  assumes a: "valid_date a" and b: "valid_date b" and lt: "date_less a b"
  shows "toordinal a < toordinal b"
proof -
  from lt have "d_year a < d_year b \<or>
      (d_year a = d_year b \<and> d_month a < d_month b) \<or>
      (d_year a = d_year b \<and> d_month a = d_month b \<and> d_day a < d_day b)"
    unfolding date_less_def less_prod_def by (simp add: order_le_less) blast
  then consider
      (y) "d_year a < d_year b"
    | (m) "d_year a = d_year b" "d_month a < d_month b"
    | (d) "d_year a = d_year b" "d_month a = d_month b" "d_day a < d_day b"
    by blast
  then show ?thesis
  proof cases
    case y
    have "0 \<le> days_before_month (d_year b) (d_month b)"
      using b by (intro days_before_month_nonneg) (simp_all add: valid_date_def)
    moreover have "1 \<le> d_day b"
      using b by (simp add: valid_date_def)
    moreover note days_before_year_step [OF y] day_of_year_le [OF a]
    ultimately show ?thesis
      unfolding toordinal_def by (cases "is_leap (d_year a)"; simp)
  next
    case m
    have "days_before_month (d_year a) (d_month a) + days_in_month (d_year a) (d_month a)
            = days_before_month (d_year a) (d_month a + 1)"
      using a b m by (intro days_before_month_next) (simp_all add: valid_date_def)
    moreover have "days_before_month (d_year a) (d_month a + 1) \<le> days_before_month (d_year a) (d_month b)"
      using a b m by (intro days_before_month_mono) (simp_all add: valid_date_def)
    moreover have "d_day a \<le> days_in_month (d_year a) (d_month a)" "1 \<le> d_day b"
      using a b by (simp_all add: valid_date_def)
    ultimately show ?thesis
      unfolding toordinal_def using m by simp
  next
    case d
    then show ?thesis
      unfolding toordinal_def by simp
  qed
qed

lemma date_less_total: "a \<noteq> b \<Longrightarrow> date_less a b \<or> date_less b (a :: date)"
  by (cases a; cases b) (auto simp: date_less_def less_prod_def)

lemma date_less_asym: "date_less a b \<Longrightarrow> \<not> date_less b a"
  by (auto simp: date_less_def)

lemma toordinal_inj:
  assumes "valid_date a" "valid_date b" "toordinal a = toordinal b"
  shows "a = b"
proof (rule ccontr)
  assume "a \<noteq> b"
  then have "date_less a b \<or> date_less b a"
    by (rule date_less_total)
  then show False
    using toordinal_mono [of a b] toordinal_mono [of b a] assms by auto
qed

lemma date_less_iff_toordinal:
  assumes "valid_date a" "valid_date b"
  shows "date_less a b \<longleftrightarrow> toordinal a < toordinal b"
proof
  assume "date_less a b"
  then show "toordinal a < toordinal b"
    using assms by (intro toordinal_mono)
next
  assume lt: "toordinal a < toordinal b"
  then have "a \<noteq> b" by auto
  then have "date_less a b \<or> date_less b a"
    by (rule date_less_total)
  then show "date_less a b"
    using toordinal_mono [of b a] assms lt by auto
qed

section \<open>The time table: lookups\<close>

lemma min_from_in: "min_from f best xs \<in> set (best # xs)"
  by (induction xs arbitrary: best) auto

lemma min_from_le_best: "f (min_from f best xs) \<le> f best"
proof (induction xs arbitrary: best)
  case Nil
  then show ?case by simp
next
  case (Cons x xs)
  have "f (min_from f (if f x < f best then x else best) xs) \<le> f (if f x < f best then x else best)"
    by (rule Cons.IH)
  then show ?case by (auto split: if_splits)
qed

lemma min_from_le: "y \<in> set (best # xs) \<Longrightarrow> f (min_from f best xs) \<le> f y"
proof (induction xs arbitrary: best)
  case Nil
  then show ?case by simp
next
  case (Cons x xs)
  let ?b = "if f x < f best then x else best"
  from Cons.prems consider "y = best" | "y = x" | "y \<in> set xs" by auto
  then show ?case
  proof cases
    case 1
    have "f (min_from f ?b xs) \<le> f ?b" by (rule min_from_le_best)
    with 1 show ?thesis by (auto split: if_splits)
  next
    case 2
    have "f (min_from f ?b xs) \<le> f ?b" by (rule min_from_le_best)
    with 2 show ?thesis by (auto split: if_splits)
  next
    case 3
    then have "y \<in> set (?b # xs)" by simp
    then have "f (min_from f ?b xs) \<le> f y" by (rule Cons.IH)
    then show ?thesis by simp
  qed
qed

lemma py_min_Some:
  assumes "xs \<noteq> []"
  shows "\<exists>r. py_min f xs = Some r \<and> r \<in> set xs \<and> (\<forall>y \<in> set xs. f r \<le> f y)"
proof (cases xs)
  case Nil
  with assms show ?thesis by simp
next
  case (Cons x rest)
  have "py_min f xs = Some (min_from f x rest)"
    by (simp add: py_min_def Cons)
  moreover have "min_from f x rest \<in> set xs"
    using min_from_in [of f x rest] by (simp add: Cons)
  moreover have "f (min_from f x rest) \<le> f y" if "y \<in> set xs" for y
    using that min_from_le [of y x rest f] by (simp add: Cons)
  ultimately show ?thesis by blast
qed

lemma date_new_valid: "date_new y m d = Some r \<Longrightarrow> valid_date r"
  by (auto simp: date_new_def Let_def split: if_splits)

lemma iso_to_ymd_valid: "iso_to_ymd y w k = Some d \<Longrightarrow> valid_date d"
  by (auto simp: iso_to_ymd_def Let_def split: if_splits dest: date_new_valid)

lemma fromisoformat_cases:
  assumes "fromisoformat s = Some d"
  shows "(\<exists>y w k. iso_to_ymd y w k = Some d) \<or> (\<exists>y m k. date_new y m k = Some d)"
  using assms unfolding fromisoformat_def Let_def
  by (simp split: if_splits option.splits prod.splits) blast+

lemma fromisoformat_valid: "fromisoformat s = Some d \<Longrightarrow> valid_date d"
  using fromisoformat_cases [of s d] by (auto dest: date_new_valid iso_to_ymd_valid)

lemma schedule_ok_update:
  "schedule_ok sch \<Longrightarrow> valid_date d \<Longrightarrow> schedule_ok (AList.update d v sch)"
  unfolding schedule_ok_def
  by (auto simp: distinct_update list_all_iff dom_update)

lemma schedule_row_ok: "schedule_ok sch \<Longrightarrow> schedule_ok (schedule_row sch raw)"
  by (auto simp: schedule_row_def Let_def schedule_ok_update
      split: option.splits dest: fromisoformat_valid)

lemma foldl_schedule_row_ok: "schedule_ok sch \<Longrightarrow> schedule_ok (foldl schedule_row sch ls)"
  by (induction ls arbitrary: sch) (simp_all add: schedule_row_ok)

lemma schedule_ok_Nil: "schedule_ok []"
  by (simp add: schedule_ok_def)

lemma load_schedule_ok: "schedule_ok (load_schedule time_file)"
  by (cases time_file) (simp_all add: load_schedule_def foldl_schedule_row_ok schedule_ok_Nil)

lemma nearest_key_inj:
  "valid_date a \<Longrightarrow> valid_date b \<Longrightarrow> nearest_key t a = nearest_key t b \<Longrightarrow> a = b"
  by (auto simp: nearest_key_def dest: toordinal_inj)


lemma find_nearest_day_times_nonempty:
  assumes "load_schedule time_file \<noteq> []"
  shows "\<exists>r v. find_nearest_day_times time_file target_date = Some (r, v)"
proof -
  let ?sch = "load_schedule time_file"
  from assms have "map fst ?sch \<noteq> []" by simp
  from py_min_Some [OF this, of "nearest_key target_date"]
  obtain r where r: "py_min (nearest_key target_date) (map fst ?sch) = Some r"
    and r_in: "r \<in> set (map fst ?sch)"
    by blast
  from r_in obtain v where "map_of ?sch r = Some v"
    by (cases "map_of ?sch r") (auto simp: map_of_eq_None_iff)
  with assms r show ?thesis
    by (simp add: find_nearest_day_times_def)
qed

text \<open>
  C1. On a table that is not empty, \<^verbatim>\<open>find_nearest_day_times\<close> returns a date of the table
  with its stored times, and that date comes strictly before every other date of the
  table in the order the claim gives: a smaller distance in days from the query; at equal
  distance, a date after the query before one that is not; then the smaller ordinal.
\<close>

theorem find_nearest_day_times_minimal:
  assumes "load_schedule time_file \<noteq> []"
  shows "\<exists>nearest_day day_times.
    find_nearest_day_times time_file target_date = Some (nearest_day, day_times) \<and>
    map_of (load_schedule time_file) nearest_day = Some day_times \<and>
    (\<forall>d \<in> fst ` set (load_schedule time_file). d \<noteq> nearest_day \<longrightarrow>
       \<bar>toordinal nearest_day - toordinal target_date\<bar> < \<bar>toordinal d - toordinal target_date\<bar> \<or>
       \<bar>toordinal nearest_day - toordinal target_date\<bar> = \<bar>toordinal d - toordinal target_date\<bar> \<and>
       (date_less target_date nearest_day \<and> \<not> date_less target_date d \<or>
        (date_less target_date nearest_day \<longleftrightarrow> date_less target_date d) \<and>
        toordinal nearest_day < toordinal d))"
proof -
  let ?sch = "load_schedule time_file"
  let ?key = "nearest_key target_date"
  have ok: "schedule_ok ?sch" by (rule load_schedule_ok)
  from assms have "map fst ?sch \<noteq> []" by simp
  from py_min_Some [OF this, of ?key]
  obtain r where r: "py_min ?key (map fst ?sch) = Some r"
    and r_in: "r \<in> set (map fst ?sch)"
    and r_le: "\<And>y. y \<in> set (map fst ?sch) \<Longrightarrow> ?key r \<le> ?key y"
    by blast
  from r_in obtain v where v: "map_of ?sch r = Some v"
    by (cases "map_of ?sch r") (auto simp: map_of_eq_None_iff)
  have res: "find_nearest_day_times time_file target_date = Some (r, v)"
    using assms r v by (simp add: find_nearest_day_times_def)
  have strict: "?key r < ?key d" if "d \<in> fst ` set ?sch" "d \<noteq> r" for d
  proof -
    from that have d_in: "d \<in> set (map fst ?sch)" by simp
    then have le: "?key r \<le> ?key d" by (rule r_le)
    have "valid_date r" "valid_date d"
      using ok r_in d_in by (auto simp: schedule_ok_def list_all_iff)
    then have "?key r \<noteq> ?key d"
      using that(2) nearest_key_inj [of r d target_date] by auto
    with le show ?thesis by simp
  qed
  have "\<bar>toordinal r - toordinal target_date\<bar> < \<bar>toordinal d - toordinal target_date\<bar> \<or>
       \<bar>toordinal r - toordinal target_date\<bar> = \<bar>toordinal d - toordinal target_date\<bar> \<and>
       (date_less target_date r \<and> \<not> date_less target_date d \<or>
        (date_less target_date r \<longleftrightarrow> date_less target_date d) \<and>
        toordinal r < toordinal d)"
    if "d \<in> fst ` set ?sch" "d \<noteq> r" for d
    using strict [OF that]
    by (auto simp: nearest_key_def less_prod_def order_le_less split: if_splits)
  with res v show ?thesis by blast
qed


theorem find_nearest_day_times_minimal_witness:
  "load_schedule two_day_table \<noteq> [] \<and>
   find_nearest_day_times two_day_table \<lparr>d_year = 2024, d_month = 3, d_day = 5\<rparr> =
     Some (\<lparr>d_year = 2024, d_month = 3, d_day = 7\<rparr>,
           (\<lparr>t_hour = 4, t_minute = 45\<rparr>, \<lparr>t_hour = 18, t_minute = 24\<rparr>)) \<and>
   (\<exists>nearest_day day_times.
      find_nearest_day_times two_day_table \<lparr>d_year = 2024, d_month = 3, d_day = 5\<rparr> =
        Some (nearest_day, day_times) \<and>
      map_of (load_schedule two_day_table) nearest_day = Some day_times \<and>
      (\<forall>d \<in> fst ` set (load_schedule two_day_table). d \<noteq> nearest_day \<longrightarrow>
         \<bar>toordinal nearest_day - toordinal \<lparr>d_year = 2024, d_month = 3, d_day = 5\<rparr>\<bar>
           < \<bar>toordinal d - toordinal \<lparr>d_year = 2024, d_month = 3, d_day = 5\<rparr>\<bar> \<or>
         \<bar>toordinal nearest_day - toordinal \<lparr>d_year = 2024, d_month = 3, d_day = 5\<rparr>\<bar>
           = \<bar>toordinal d - toordinal \<lparr>d_year = 2024, d_month = 3, d_day = 5\<rparr>\<bar> \<and>
         (date_less \<lparr>d_year = 2024, d_month = 3, d_day = 5\<rparr> nearest_day \<and>
          \<not> date_less \<lparr>d_year = 2024, d_month = 3, d_day = 5\<rparr> d \<or>
          (date_less \<lparr>d_year = 2024, d_month = 3, d_day = 5\<rparr> nearest_day \<longleftrightarrow>
           date_less \<lparr>d_year = 2024, d_month = 3, d_day = 5\<rparr> d) \<and>
          toordinal nearest_day < toordinal d)))"
proof -
  have ne: "load_schedule two_day_table \<noteq> []"
    by code_simp
  have ev: "find_nearest_day_times two_day_table \<lparr>d_year = 2024, d_month = 3, d_day = 5\<rparr> =
     Some (\<lparr>d_year = 2024, d_month = 3, d_day = 7\<rparr>,
           (\<lparr>t_hour = 4, t_minute = 45\<rparr>, \<lparr>t_hour = 18, t_minute = 24\<rparr>))"
    by code_simp
  note find_nearest_day_times_minimal [OF ne, of "\<lparr>d_year = 2024, d_month = 3, d_day = 5\<rparr>"]
  with ne ev show ?thesis
    by (intro conjI)
qed

text \<open>
  C2. For a date of the table, \<^verbatim>\<open>resolve_day_times\<close> returns that date with the stored pair
  of times and the exact flag set; and it returns nothing exactly when the table has no
  entry at all.
\<close>

theorem resolve_day_times_exact:
  "(map_of (load_schedule time_file) d = Some (sah, ift) \<longrightarrow>
      resolve_day_times time_file d = Some (d, sah, ift, True)) \<and>
   (resolve_day_times time_file target_date = None \<longleftrightarrow> load_schedule time_file = [])"
proof (intro conjI impI)
  assume "map_of (load_schedule time_file) d = Some (sah, ift)"
  then show "resolve_day_times time_file d = Some (d, sah, ift, True)"
    by (simp add: resolve_day_times_def load_day_times_def)
next
  show "resolve_day_times time_file target_date = None \<longleftrightarrow> load_schedule time_file = []"
  proof
    assume none: "resolve_day_times time_file target_date = None"
    show "load_schedule time_file = []"
    proof (rule ccontr)
      assume "load_schedule time_file \<noteq> []"
      from find_nearest_day_times_nonempty [OF this, of target_date]
      obtain r v where "find_nearest_day_times time_file target_date = Some (r, v)"
        by blast
      with none show False
        by (auto simp: resolve_day_times_def split: option.splits prod.splits)
    qed
  next
    assume "load_schedule time_file = []"
    then show "resolve_day_times time_file target_date = None"
      by (simp add: resolve_day_times_def load_day_times_def find_nearest_day_times_def)
  qed
qed

theorem resolve_day_times_exact_witness:
  "map_of (load_schedule two_day_table) \<lparr>d_year = 2024, d_month = 3, d_day = 3\<rparr> =
     Some (\<lparr>t_hour = 4, t_minute = 50\<rparr>, \<lparr>t_hour = 18, t_minute = 20\<rparr>) \<and>
   resolve_day_times two_day_table \<lparr>d_year = 2024, d_month = 3, d_day = 3\<rparr> =
     Some (\<lparr>d_year = 2024, d_month = 3, d_day = 3\<rparr>,
           \<lparr>t_hour = 4, t_minute = 50\<rparr>, \<lparr>t_hour = 18, t_minute = 20\<rparr>, True) \<and>
   load_schedule (Some []) = [] \<and>
   resolve_day_times (Some []) \<lparr>d_year = 2024, d_month = 3, d_day = 3\<rparr> = None"
proof -
  have a: "map_of (load_schedule two_day_table) \<lparr>d_year = 2024, d_month = 3, d_day = 3\<rparr> =
     Some (\<lparr>t_hour = 4, t_minute = 50\<rparr>, \<lparr>t_hour = 18, t_minute = 20\<rparr>)"
    by code_simp
  have b: "load_schedule (Some []) = []"
    by code_simp
  from a b
    resolve_day_times_exact [of two_day_table "\<lparr>d_year = 2024, d_month = 3, d_day = 3\<rparr>"
      "\<lparr>t_hour = 4, t_minute = 50\<rparr>" "\<lparr>t_hour = 18, t_minute = 20\<rparr>"]
    resolve_day_times_exact [of "Some []" _ _ _ "\<lparr>d_year = 2024, d_month = 3, d_day = 3\<rparr>"]
  show ?thesis by simp
qed

section \<open>The time table: rows\<close>

subsection \<open>Digits and numbers\<close>

lemma is_digit_digit_char: "n < 10 \<Longrightarrow> is_digit (digit_char n)"
  by (simp add: is_digit_def digit_char_def)

lemma digit_val_digit_char: "n < 10 \<Longrightarrow> digit_val (digit_char n) = n"
  by (simp add: digit_val_def digit_char_def)

lemma is_digit_zero: "is_digit CHR ''0''" "digit_val CHR ''0'' = 0"
  by (simp_all add: is_digit_def digit_val_def)


lemma digits_of_digits: "list_all is_digit (digits_of n)"
proof (induction n rule: digits_of.induct)
  case (1 n)
  show ?case
  proof (cases "n < 10")
    case True
    then show ?thesis
      by (subst digits_of.simps) (simp add: is_digit_digit_char)
  next
    case False
    with 1 show ?thesis
      by (subst digits_of.simps) (simp add: is_digit_digit_char)
  qed
qed

lemma digits_of_nonempty: "digits_of n \<noteq> []"
  by (subst digits_of.simps) simp

lemma foldl_digits_of:
  "foldl (\<lambda>acc c. 10 * acc + digit_val c) 0 (digits_of n) = n"
proof (induction n rule: digits_of.induct)
  case (1 n)
  show ?case
  proof (cases "n < 10")
    case True
    then show ?thesis
      by (subst digits_of.simps) (simp add: digit_val_digit_char)
  next
    case False
    with 1 show ?thesis
      by (subst digits_of.simps) (simp add: digit_val_digit_char)
  qed
qed

lemma length_digits_of: "n < 10 ^ w \<Longrightarrow> 0 < w \<Longrightarrow> length (digits_of n) \<le> w"
proof (induction w arbitrary: n)
  case 0
  then show ?case by simp
next
  case (Suc w)
  show ?case
  proof (cases "n < 10")
    case True
    then show ?thesis
      by (subst digits_of.simps) simp
  next
    case False
    with Suc.prems have w: "0 < w"
      by (cases w) simp_all
    from Suc.prems have "n div 10 < 10 ^ w"
      by (simp add: less_mult_imp_div_less mult.commute)
    then have "length (digits_of (n div 10)) \<le> w"
      using w by (rule Suc.IH)
    with False show ?thesis
      by (subst digits_of.simps) simp
  qed
qed

lemma foldl_zeros:
  "foldl (\<lambda>acc c. 10 * acc + digit_val c) 0 (replicate k CHR ''0'') = (0 :: nat)"
  by (induction k) (simp_all add: is_digit_zero)

lemma zero_pad_digits: "list_all is_digit (zero_pad w i)"
proof -
  have "\<forall>x \<in> set (digits_of (nat i)). is_digit x"
    using digits_of_digits [of "nat i"] by (simp add: list_all_iff)
  then show ?thesis
    by (auto simp: zero_pad_def Let_def list_all_iff is_digit_zero(1))
qed


lemma length_zero_pad: "0 \<le> i \<Longrightarrow> i < 10 ^ w \<Longrightarrow> 0 < w \<Longrightarrow> length (zero_pad w i) = w"
proof -
  assume a: "0 \<le> i" "i < 10 ^ w" "0 < w"
  then have "nat i < 10 ^ w"
    by (simp add: nat_less_iff)
  then have "length (digits_of (nat i)) \<le> w"
    using a(3) by (rule length_digits_of)
  then show ?thesis
    by (simp add: zero_pad_def Let_def)
qed





subsection \<open>Reading back what the formats write\<close>

lemma days_in_month_le: "1 \<le> m \<Longrightarrow> m \<le> 12 \<Longrightarrow> days_in_month y m \<le> 31"
  using month_cases [of m] by (auto simp: days_in_month_def month_defs)






subsection \<open>Cutting a line into fields\<close>









subsection \<open>One row\<close>










subsection \<open>What the readers ask of a field\<close>






subsection \<open>The rows of the table\<close>




section \<open>The ledger\<close>

lemma foldl_delete_filter:
  "foldl (\<lambda>d old. AList.delete old d) sk olds = filter (\<lambda>e. fst e \<notin> set olds) sk"
proof (induction olds arbitrary: sk)
  case Nil
  then show ?case by simp
next
  case (Cons old olds)
  have "AList.delete old sk = filter (\<lambda>e. fst e \<noteq> old) sk"
    by (induction sk) (auto simp: AList.delete_eq)
  then show ?case
    by (simp add: Cons.IH)
qed

lemma later_in_front:
  assumes "sorted_wrt (<) (front @ back)" "x \<in> set front"
  shows "length back \<le> length (filter (\<lambda>y. x < y) (front @ back))"
proof -
  from assms have "\<forall>y \<in> set back. x < y"
    by (auto simp: sorted_wrt_append)
  then have "filter (\<lambda>y. x < y) back = back"
    by (simp add: filter_id_conv)
  then show ?thesis by simp
qed

lemma later_in_back:
  fixes x :: "'a :: linorder"
  assumes "sorted_wrt (<) (front @ back)" "x \<in> set back"
  shows "length (filter (\<lambda>y. x < y) (front @ back)) < length back"
proof -
  from assms have "\<forall>y \<in> set front. \<not> x < y"
    by (auto simp: sorted_wrt_append dest: less_asym)
  then have "filter (\<lambda>y. x < y) front = []"
    by (simp add: filter_empty_conv)
  moreover have "length (filter (\<lambda>y. x < y) back) < length back"
    using assms(2) by (intro length_filter_less [of x]) simp_all
  ultimately show ?thesis by simp
qed

lemma later_sort:
  fixes x :: "'a :: linorder"
  assumes "distinct ks"
  shows "length (filter (\<lambda>y. x < y) (sort ks)) = length (filter (\<lambda>y. x < y) ks)"
proof -
  have "distinct (sort ks)" using assms by simp
  then have "length (filter (\<lambda>y. x < y) (sort ks)) = card ({y. x < y} \<inter> set (sort ks))"
    by (rule distinct_length_filter)
  also have "\<dots> = card ({y. x < y} \<inter> set ks)" by simp
  also have "\<dots> = length (filter (\<lambda>y. x < y) ks)"
    using assms by (rule distinct_length_filter [symmetric])
  finally show ?thesis .
qed

lemma kept_days_iff:
  assumes "distinct ks"
  shows "x \<in> set (kept_days ks) \<longleftrightarrow> x \<in> set ks \<and> length (filter (\<lambda>y. x < y) ks) < 10"
proof -
  define all_days where "all_days = sort ks"
  define k where "k = length all_days - 10"
  have kept: "kept_days ks = drop k all_days"
    by (simp add: kept_days_def Let_def all_days_def k_def)
  have strict: "sorted_wrt (<) (take k all_days @ drop k all_days)"
    using assms by (simp add: strict_sorted_iff all_days_def)
  have len: "length (drop k all_days) \<le> 10"
    by (simp add: k_def)
  have later: "length (filter (\<lambda>y. x < y) (take k all_days @ drop k all_days))
      = length (filter (\<lambda>y. x < y) ks)"
    using later_sort [OF assms, of x] by (simp add: all_days_def)
  have set_all: "set (take k all_days) \<union> set (drop k all_days) = set ks"
    by (metis all_days_def append_take_drop_id set_append set_sort)
  show ?thesis
  proof
    assume "x \<in> set (kept_days ks)"
    then have x: "x \<in> set (drop k all_days)"
      by (simp add: kept)
    have "length (filter (\<lambda>y. x < y) (take k all_days @ drop k all_days)) < length (drop k all_days)"
      using strict x by (rule later_in_back)
    with x set_all len later show "x \<in> set ks \<and> length (filter (\<lambda>y. x < y) ks) < 10"
      by auto
  next
    assume a: "x \<in> set ks \<and> length (filter (\<lambda>y. x < y) ks) < 10"
    show "x \<in> set (kept_days ks)"
    proof (rule ccontr)
      assume "x \<notin> set (kept_days ks)"
      then have "x \<notin> set (drop k all_days)"
        by (simp add: kept)
      with a set_all have x: "x \<in> set (take k all_days)" by auto
      have "0 < k"
      proof (cases k)
        case 0
        with x show ?thesis by simp
      next
        case (Suc n)
        then show ?thesis by simp
      qed
      then have "length (drop k all_days) = 10"
        by (simp add: k_def)
      moreover have "length (drop k all_days)
          \<le> length (filter (\<lambda>y. x < y) (take k all_days @ drop k all_days))"
        using strict x by (rule later_in_front)
      ultimately show False
        using a later by simp
    qed
  qed
qed

lemma prune_days_filter:
  assumes "distinct (map fst sk)"
  shows "prune_days sk = filter (\<lambda>e. fst e \<in> set (kept_days (map fst sk))) sk"
proof -
  define all_days where "all_days = sort (map fst sk)"
  define k where "k = length all_days - 10"
  have kept: "kept_days (map fst sk) = drop k all_days"
    by (simp add: kept_days_def Let_def all_days_def k_def)
  have split: "set (take k all_days) \<union> set (drop k all_days) = fst ` set sk"
    by (metis all_days_def append_take_drop_id set_append set_sort set_map)
  have "distinct (take k all_days @ drop k all_days)"
    using assms by (simp add: all_days_def)
  then have disj: "set (take k all_days) \<inter> set (drop k all_days) = {}"
    by (simp only: distinct_append)
  have mem: "fst e \<notin> set (take k all_days) \<longleftrightarrow> fst e \<in> set (drop k all_days)"
    if "e \<in> set sk" for e
  proof -
    from that have "fst e \<in> fst ` set sk" by simp
    with split disj show ?thesis by blast
  qed
  show ?thesis
  proof (cases "10 < length all_days")
    case True
    then have "prune_days sk = filter (\<lambda>e. fst e \<notin> set (take k all_days)) sk"
      by (simp add: prune_days_def Let_def foldl_delete_filter all_days_def k_def)
    also have "\<dots> = filter (\<lambda>e. fst e \<in> set (drop k all_days)) sk"
      by (rule filter_cong) (simp_all add: mem)
    finally show ?thesis by (simp add: kept)
  next
    case False
    then have "k = 0" by (simp add: k_def)
    then have "set (kept_days (map fst sk)) = fst ` set sk"
      using split by (simp add: kept)
    then have "filter (\<lambda>e. fst e \<in> set (kept_days (map fst sk))) sk = sk"
      by (simp add: filter_id_conv)
    with False show ?thesis
      by (simp add: prune_days_def Let_def all_days_def)
  qed
qed

lemma prune_days_keep:
  assumes "distinct (map fst sk)"
  shows "prune_days sk = filter (\<lambda>e. later_days (fst e) sk < 10) sk"
proof -
  have "prune_days sk = filter (\<lambda>e. fst e \<in> set (kept_days (map fst sk))) sk"
    using assms by (rule prune_days_filter)
  also have "\<dots> = filter (\<lambda>e. later_days (fst e) sk < 10) sk"
    by (rule filter_cong) (auto simp: kept_days_iff [OF assms] later_days_def)
  finally show ?thesis .
qed

lemma update_absent:
  "map_of al k = None \<Longrightarrow> AList.update k v al = al @ [(k, v)]"
  by (induction al) (auto split: if_splits)

lemma length_filter_mono:
  "(\<And>x. x \<in> set xs \<Longrightarrow> P x \<Longrightarrow> Q x) \<Longrightarrow> length (filter P xs) \<le> length (filter Q xs)"
  by (induction xs) auto

lemma keys_filter:
  "map fst (filter (\<lambda>e. P (fst e)) sk) = filter P (map fst sk)"
  by (induction sk) auto

lemma later_days_mono:
  "k \<le> ds \<Longrightarrow> later_days ds sk \<le> later_days k sk"
  unfolding later_days_def by (rule length_filter_mono) simp

lemma later_days_filter_le:
  "later_days k (filter (\<lambda>e. P (fst e)) sk) \<le> later_days k sk"
  by (induction sk) (auto simp: later_days_def)

lemma later_days_update:
  "later_days ds (AList.update ds v sk) = later_days ds sk"
  by (simp add: later_days_def AList.update_keys)

lemma later_days_append_own:
  "later_days k (sk @ [(ds, v)]) = later_days k sk + (if k < ds then 1 else 0)"
  by (simp add: later_days_def)

lemma day_keys_update:
  "day_keys ds (AList.update ds v sk) = v"
  by (simp add: day_keys_def AList.update_conv')

lemma day_keys_filter:
  "day_keys ds (filter (\<lambda>e. P (fst e)) sk) = (if P ds then day_keys ds sk else [])"
  by (simp add: day_keys_def Map.map_of_filter [where P = P] restrict_map_def)

lemma day_keys_keep:
  "day_keys ds (filter (\<lambda>e. later_days (fst e) L < 10) sk) =
     (if later_days ds L < 10 then day_keys ds sk else [])"
  by (rule day_keys_filter [where P = "\<lambda>x. later_days x L < 10"])

lemma marked_ledger_new:
  assumes "distinct (map fst sk)" "key \<notin> set (day_keys ds sk)"
  shows "marked_ledger ds key sk =
    filter (\<lambda>e. later_days (fst e) (AList.update ds (day_keys ds sk @ [key]) sk) < 10)
      (AList.update ds (day_keys ds sk @ [key]) sk)"
proof -
  have "distinct (map fst (AList.update ds (day_keys ds sk @ [key]) sk))"
    using assms(1) by (rule AList.distinct_update)
  then show ?thesis
    using assms(2) by (simp add: marked_ledger_def Let_def prune_days_keep)
qed

lemma marked_ledger_distinct:
  assumes "distinct (map fst sk)"
  shows "distinct (map fst (marked_ledger ds key sk))"
proof (cases "key \<in> set (day_keys ds sk)")
  case True
  with assms show ?thesis by (simp add: marked_ledger_def)
next
  case False
  have "distinct (map fst (AList.update ds (day_keys ds sk @ [key]) sk))"
    using assms by (rule AList.distinct_update)
  then show ?thesis
    unfolding marked_ledger_new [OF assms False] by (rule distinct_map_filter)
qed

lemma day_keys_marked:
  assumes "distinct (map fst sk)"
  shows "day_keys ds (marked_ledger ds key sk) =
    (if key \<in> set (day_keys ds sk) then day_keys ds sk
     else if later_days ds sk < 10 then day_keys ds sk @ [key] else [])"
proof (cases "key \<in> set (day_keys ds sk)")
  case True
  then show ?thesis by (simp add: marked_ledger_def)
next
  case False
  show ?thesis
    unfolding marked_ledger_new [OF assms False]
    using False by (simp add: day_keys_keep day_keys_update later_days_update)
qed

lemma kept_days_length:
  "length (kept_days ks) = min 10 (length ks)"
  by (simp add: kept_days_def Let_def)

lemma prune_days_length:
  assumes "distinct (map fst sk)"
  shows "length (prune_days sk) = min 10 (length sk)"
proof -
  let ?ks = "map fst sk"
  have d: "distinct (kept_days ?ks)"
    using assms by (simp add: kept_days_def Let_def)
  have sub: "set (kept_days ?ks) \<subseteq> set ?ks"
    using kept_days_iff [OF assms] by blast
  have "map fst (prune_days sk) = filter (\<lambda>x. x \<in> set (kept_days ?ks)) ?ks"
    unfolding prune_days_filter [OF assms]
    by (rule keys_filter [where P = "\<lambda>x. x \<in> set (kept_days (map fst sk))"])
  then have "length (prune_days sk) = length (filter (\<lambda>x. x \<in> set (kept_days ?ks)) ?ks)"
    by (metis length_map)
  also have "\<dots> = card ({x. x \<in> set (kept_days ?ks)} \<inter> set ?ks)"
    using assms by (rule distinct_length_filter)
  also have "{x. x \<in> set (kept_days ?ks)} \<inter> set ?ks = set (kept_days ?ks)"
    using sub by blast
  also have "card (set (kept_days ?ks)) = length (kept_days ?ks)"
    using d by (rule distinct_card)
  finally show ?thesis
    by (simp add: kept_days_length)
qed

lemma marked_ledger_length:
  assumes "distinct (map fst sk)"
  shows "length (marked_ledger ds key sk) \<le> max 10 (length sk)"
    and "key \<notin> set (day_keys ds sk) \<Longrightarrow> length (marked_ledger ds key sk) \<le> 10"
proof -
  have "distinct (map fst (AList.update ds (day_keys ds sk @ [key]) sk))"
    using assms by (rule AList.distinct_update)
  then have "length (prune_days (AList.update ds (day_keys ds sk @ [key]) sk)) \<le> 10"
    by (simp add: prune_days_length)
  then show "length (marked_ledger ds key sk) \<le> max 10 (length sk)"
    and "key \<notin> set (day_keys ds sk) \<Longrightarrow> length (marked_ledger ds key sk) \<le> 10"
    by (simp_all add: marked_ledger_def Let_def le_max_iff_disj)
qed

lemma marked_ledger_idem:
  assumes "distinct (map fst sk)"
  shows "marked_ledger ds key (marked_ledger ds key sk) = marked_ledger ds key sk"
proof (cases "key \<in> set (day_keys ds sk)")
  case True
  then show ?thesis by (simp add: marked_ledger_def)
next
  case False
  define L' where "L' = AList.update ds (day_keys ds sk @ [key]) sk"
  define L1 where "L1 = filter (\<lambda>e. later_days (fst e) L' < 10) L'"
  have dL': "distinct (map fst L')"
    unfolding L'_def using assms by (rule AList.distinct_update)
  have ml: "marked_ledger ds key sk = L1"
    unfolding L1_def L'_def by (rule marked_ledger_new [OF assms False])
  have dL1: "distinct (map fst L1)"
    unfolding L1_def using dL' by (rule distinct_map_filter)
  have later_ds: "later_days ds L' = later_days ds sk"
    by (simp add: L'_def later_days_update)
  show ?thesis
  proof (cases "later_days ds sk < 10")
    case True
    then have "key \<in> set (day_keys ds (marked_ledger ds key sk))"
      using False by (simp add: day_keys_marked [OF assms])
    then show ?thesis
      by (simp add: marked_ledger_def [of ds key "marked_ledger ds key sk"])
  next
    case full: False
    have dk: "day_keys ds L1 = []"
      using full later_ds by (simp add: L1_def day_keys_keep)
    have none: "map_of L1 ds = None"
      unfolding L1_def using full later_ds
      by (simp add: Map.map_of_filter [where P = "\<lambda>x. later_days x L' < 10"] restrict_map_def)
    define L2 where "L2 = L1 @ [(ds, [key])]"
    have up: "AList.update ds [key] L1 = L2"
      using none by (simp add: L2_def update_absent)
    have dL2: "distinct (map fst L2)"
      using dL1 none by (simp add: L2_def map_of_eq_None_iff)
    have above: "ds < fst e" if "e \<in> set L1" for e
    proof (rule ccontr)
      assume "\<not> ds < fst e"
      then have "fst e \<le> ds" by simp
      then have "later_days ds L' \<le> later_days (fst e) L'"
        by (rule later_days_mono)
      moreover from that have "later_days (fst e) L' < 10"
        by (simp add: L1_def)
      ultimately show False
        using full later_ds by simp
    qed
    have len_L': "10 \<le> length L'"
    proof -
      have "later_days ds L' \<le> length (map fst L')"
        unfolding later_days_def by (rule length_filter_le)
      with full later_ds show ?thesis by simp
    qed
    have "L1 = prune_days L'"
      by (simp add: L1_def prune_days_keep [OF dL'])
    then have len_L1: "length L1 = 10"
      using len_L' by (simp add: prune_days_length [OF dL'])
    have "filter (\<lambda>other. ds < other) (map fst L1) = map fst L1"
      using above by (simp add: filter_id_conv)
    then have later_L2: "later_days ds L2 = 10"
      using len_L1 by (simp add: later_days_def L2_def)
    have keep: "later_days (fst e) L2 < 10" if "e \<in> set L1" for e
    proof -
      have "later_days (fst e) L2 = later_days (fst e) L1"
        using above [OF that] by (simp add: L2_def later_days_append_own)
      also have "\<dots> \<le> later_days (fst e) L'"
        unfolding L1_def by (rule later_days_filter_le)
      also from that have "\<dots> < 10"
        by (simp add: L1_def)
      finally show ?thesis .
    qed
    have own: "filter (\<lambda>e. later_days (fst e) L2 < 10) [(ds, [key])] = []"
      using later_L2 by simp
    have rest: "filter (\<lambda>e. later_days (fst e) L2 < 10) L1 = L1"
      using keep by (simp add: filter_id_conv)
    have "marked_ledger ds key L1 = prune_days L2"
      by (simp add: marked_ledger_def dk up)
    also have "\<dots> = filter (\<lambda>e. later_days (fst e) L2 < 10) L2"
      by (rule prune_days_keep [OF dL2])
    also have "\<dots> = filter (\<lambda>e. later_days (fst e) L2 < 10) (L1 @ [(ds, [key])])"
      by (simp only: L2_def [symmetric])
    also have "\<dots> = L1"
      by (simp only: filter_append own rest append_Nil2)
    finally show ?thesis
      by (simp add: ml)
  qed
qed

section \<open>The users and their ledgers\<close>

lemma default_preset_known:
  "map_of PRESETS DEFAULT_PRESET = Some \<lparr>iftar = [30, 15, 10, 5, 1], saharlik = [5]\<rparr>"
  by (simp add: PRESETS_def DEFAULT_PRESET_def)

lemma UserSettings_default_fields:
  "preset UserSettings_default = DEFAULT_PRESET" "sent_keys UserSettings_default = []"
  "enabled UserSettings_default = True"
  by (simp_all add: UserSettings_default_def)

lemma update_present: "map_of al k = Some v \<Longrightarrow> AList.update k v al = al"
  by (induction al) (auto split: if_splits)

lemma update_appended:
  "map_of al k = None \<Longrightarrow> AList.update k v (al @ [(k, v')]) = al @ [(k, v)]"
  by (induction al) (auto split: if_splits)

lemma list_all_update:
  "list_all P al \<Longrightarrow> P (k, v) \<Longrightarrow> list_all P (AList.update k v al)"
  by (induction al) auto

lemma get_user_absent:
  assumes "map_of (users w) uid = None"
  shows "get_user uid w =
    (UserSettings_default,
     w\<lparr>users := users w @ [(uid, UserSettings_default)],
       users_json := Some (users w @ [(uid, UserSettings_default)])\<rparr>)"
  using assms
  by (simp add: get_user_def fix_preset_def save_users_def update_absent
      UserSettings_default_fields default_preset_known)

lemma get_user_known:
  assumes "map_of (users w) uid = Some u" "map_of PRESETS (preset u) \<noteq> None"
  shows "get_user uid w = (u, w)"
  using assms by (auto simp: get_user_def fix_preset_def)

lemma get_user_unknown:
  assumes "map_of (users w) uid = Some u" "map_of PRESETS (preset u) = None"
  shows "get_user uid w =
    (u\<lparr>preset := DEFAULT_PRESET\<rparr>,
     w\<lparr>users := AList.update uid (u\<lparr>preset := DEFAULT_PRESET\<rparr>) (users w)\<rparr>)"
  using assms by (simp add: get_user_def fix_preset_def)

lemma world_ok_update:
  "world_ok w \<Longrightarrow> distinct (map fst (sent_keys u)) \<Longrightarrow>
     world_ok (w\<lparr>users := AList.update uid u (users w)\<rparr>)"
  by (simp add: world_ok_def AList.distinct_update list_all_update)

lemma world_ok_other_fields:
  "world_ok (w\<lparr>users_json := x\<rparr>) = world_ok w" "world_ok (w\<lparr>outbox := y\<rparr>) = world_ok w"
  "world_ok (save_users w) = world_ok w"
  by (simp_all add: world_ok_def save_users_def)

lemma ledger_of_distinct:
  assumes "world_ok w"
  shows "distinct (map fst (ledger_of uid w))"
proof (cases "map_of (users w) uid")
  case None
  then show ?thesis by (simp add: ledger_of_def)
next
  case (Some u)
  then have "(uid, u) \<in> set (users w)"
    by (rule map_of_SomeD)
  with assms have "distinct (map fst (sent_keys u))"
    by (auto simp: world_ok_def list_all_iff)
  with Some show ?thesis by (simp add: ledger_of_def)
qed

text \<open>What every call of \<^verbatim>\<open>get_user\<close> gives, whichever of its three cases applies.\<close>

lemma get_user_result:
  "\<exists>u' w'. get_user uid w = (u', w') \<and> map_of (users w') uid = Some u' \<and>
     sent_keys u' = ledger_of uid w \<and> outbox w' = outbox w \<and>
     map_of PRESETS (preset u') \<noteq> None \<and> (world_ok w \<longrightarrow> world_ok w') \<and>
     (\<forall>other. other \<noteq> uid \<longrightarrow> map_of (users w') other = map_of (users w) other) \<and>
     map fst (users w') =
       (if uid \<in> set (map fst (users w)) then map fst (users w) else map fst (users w) @ [uid])"
proof (cases "map_of (users w) uid")
  case None
  then have "uid \<notin> set (map fst (users w))"
    by (simp add: map_of_eq_None_iff)
  then show ?thesis
    using None
    by (auto simp: get_user_absent [OF None] UserSettings_default_fields default_preset_known
        ledger_of_def world_ok_def map_add_def split: option.splits)
next
  case (Some u)
  then have mem: "uid \<in> set (map fst (users w))"
    by (metis map_of_eq_None_iff option.distinct(1) set_map)
  have led: "ledger_of uid w = sent_keys u"
    by (simp add: ledger_of_def Some)
  show ?thesis
  proof (cases "map_of PRESETS (preset u) = None")
    case True
    have "world_ok w \<longrightarrow> world_ok (w\<lparr>users := AList.update uid (u\<lparr>preset := DEFAULT_PRESET\<rparr>) (users w)\<rparr>)"
    proof
      assume ok: "world_ok w"
      then have "distinct (map fst (sent_keys u))"
        using ledger_of_distinct [of w uid] by (simp add: led)
      then show "world_ok (w\<lparr>users := AList.update uid (u\<lparr>preset := DEFAULT_PRESET\<rparr>) (users w)\<rparr>)"
        using ok by (intro world_ok_update) simp_all
    qed
    then show ?thesis
      using mem
      by (simp add: get_user_unknown [OF Some True] AList.update_conv' led default_preset_known
          AList.update_keys)
  next
    case False
    then show ?thesis
      using mem by (simp add: get_user_known [OF Some False] Some led)
  qed
qed

lemma get_user_again:
  assumes "get_user uid w = (u', w')"
  shows "get_user uid w' = (u', w')"
proof -
  from get_user_result [of uid w] assms
  have "map_of (users w') uid = Some u'" "map_of PRESETS (preset u') \<noteq> None"
    by auto
  then show ?thesis
    by (rule get_user_known)
qed

lemma mark_steps:
  "(let sk1 = (if map_of sk ds = None then AList.update ds [] sk else sk);
        marked = day_keys ds sk1
    in if key \<notin> set marked then prune_days (AList.update ds (marked @ [key]) sk1) else sk1)
   = marked_ledger ds key sk"
proof (cases "map_of sk ds")
  case None
  then show ?thesis
    by (simp add: marked_ledger_def day_keys_def AList.update_conv' AList.update_last)
next
  case (Some ks)
  then show ?thesis
    by (simp add: marked_ledger_def day_keys_def Let_def)
qed

lemma mark_sent_eq:
  "mark_sent uid day key w =
     (case get_user uid w of
        (u, w1) \<Rightarrow>
          save_users (w1\<lparr>users :=
            AList.update uid (u\<lparr>sent_keys := marked_ledger (isoformat day) key (sent_keys u)\<rparr>)
              (users w1)\<rparr>))"
proof -
  obtain u w1 where g: "get_user uid w = (u, w1)"
    by (cases "get_user uid w") auto
  show ?thesis
    unfolding mark_sent_def g prod.case
    using mark_steps [of "sent_keys u" "isoformat day" key]
    by (simp add: Let_def)
qed

lemma ledger_of_mark_sent:
  "ledger_of uid (mark_sent uid day key w) = marked_ledger (isoformat day) key (ledger_of uid w)"
proof -
  from get_user_result [of uid w] obtain u w1 where
    g: "get_user uid w = (u, w1)" and led: "sent_keys u = ledger_of uid w"
    by blast
  have "ledger_of uid (mark_sent uid day key w) =
      marked_ledger (isoformat day) key (sent_keys u)"
    by (simp add: mark_sent_eq g ledger_of_def save_users_def AList.update_conv')
  then show ?thesis
    by (simp only: led)
qed

lemma fst_was_sent:
  "fst (was_sent uid day key w) \<longleftrightarrow> key \<in> set (day_keys (isoformat day) (ledger_of uid w))"
proof -
  from get_user_result [of uid w] obtain u w1 where
    g: "get_user uid w = (u, w1)" and led: "sent_keys u = ledger_of uid w"
    by blast
  show ?thesis
    by (simp add: was_sent_def g led)
qed

lemma mark_sent_ok:
  assumes "world_ok w"
  shows "world_ok (mark_sent uid day key w)"
proof -
  from get_user_result [of uid w] assms obtain u w1 where
    g: "get_user uid w = (u, w1)" and led: "sent_keys u = ledger_of uid w" and ok: "world_ok w1"
    by blast
  have "distinct (map fst (marked_ledger (isoformat day) key (sent_keys u)))"
    unfolding led using ledger_of_distinct [OF assms] by (rule marked_ledger_distinct)
  then have "world_ok (w1\<lparr>users :=
      AList.update uid (u\<lparr>sent_keys := marked_ledger (isoformat day) key (sent_keys u)\<rparr>)
        (users w1)\<rparr>)"
    using ok by (intro world_ok_update) simp_all
  then show ?thesis
    by (simp add: mark_sent_eq g world_ok_other_fields)
qed

lemma mark_sent_idem:
  assumes "world_ok w"
  shows "mark_sent uid day key (mark_sent uid day key w) = mark_sent uid day key w"
proof -
  from get_user_result [of uid w] obtain u w1 where
    g: "get_user uid w = (u, w1)" and led: "sent_keys u = ledger_of uid w"
    and known: "map_of PRESETS (preset u) \<noteq> None"
    by blast
  define ml where "ml = marked_ledger (isoformat day) key (sent_keys u)"
  define u' where "u' = u\<lparr>sent_keys := ml\<rparr>"
  define w2 where "w2 = save_users (w1\<lparr>users := AList.update uid u' (users w1)\<rparr>)"
  have m1: "mark_sent uid day key w = w2"
    by (simp add: mark_sent_eq g w2_def u'_def ml_def)
  have lk: "map_of (users w2) uid = Some u'"
    by (simp add: w2_def save_users_def AList.update_conv')
  have "map_of PRESETS (preset u') \<noteq> None"
    using known by (simp add: u'_def)
  with lk have g2: "get_user uid w2 = (u', w2)"
    by (rule get_user_known)
  have "marked_ledger (isoformat day) key ml = ml"
    unfolding ml_def led using ledger_of_distinct [OF assms] by (rule marked_ledger_idem)
  then have same: "u'\<lparr>sent_keys := marked_ledger (isoformat day) key (sent_keys u')\<rparr> = u'"
    by (simp add: u'_def)
  have "mark_sent uid day key w2 = save_users (w2\<lparr>users := AList.update uid u' (users w2)\<rparr>)"
    by (simp add: mark_sent_eq g2 same)
  also have "AList.update uid u' (users w2) = users w2"
    using lk by (rule update_present)
  also have "save_users (w2\<lparr>users := users w2\<rparr>) = w2"
    by (simp add: w2_def save_users_def)
  finally show ?thesis
    by (simp add: m1)
qed

text \<open>
  C3, as the code has it. In a state whose dictionaries are dictionaries, a second call of
  \<^verbatim>\<open>mark_sent\<close> with the same arguments changes nothing at all. After the call
  \<^verbatim>\<open>was_sent\<close> returns true exactly when the key was marked before or the ledger held fewer
  than ten days later than the day: with ten later days the pruning of the same call
  removes the day it has just marked.
\<close>

theorem mark_sent_idempotent:
  assumes "world_ok w"
  shows "mark_sent uid day key (mark_sent uid day key w) = mark_sent uid day key w \<and>
    world_ok (mark_sent uid day key w) \<and>
    (fst (was_sent uid day key (mark_sent uid day key w)) \<longleftrightarrow>
       fst (was_sent uid day key w) \<or> later_days (isoformat day) (ledger_of uid w) < 10)"
proof -
  have "fst (was_sent uid day key (mark_sent uid day key w)) \<longleftrightarrow>
      fst (was_sent uid day key w) \<or> later_days (isoformat day) (ledger_of uid w) < 10"
    by (simp add: fst_was_sent ledger_of_mark_sent day_keys_marked [OF ledger_of_distinct [OF assms]])
  with mark_sent_idem [OF assms] mark_sent_ok [OF assms] show ?thesis
    by blast
qed

theorem mark_sent_idempotent_witness:
  "world_ok ten_day_world \<and>
   later_days (isoformat \<lparr>d_year = 2024, d_month = 3, d_day = 12\<rparr>) (ledger_of ''1'' ten_day_world) < 10 \<and>
   mark_sent ''1'' \<lparr>d_year = 2024, d_month = 3, d_day = 12\<rparr> ''morning''
     (mark_sent ''1'' \<lparr>d_year = 2024, d_month = 3, d_day = 12\<rparr> ''morning'' ten_day_world) =
   mark_sent ''1'' \<lparr>d_year = 2024, d_month = 3, d_day = 12\<rparr> ''morning'' ten_day_world \<and>
   fst (was_sent ''1'' \<lparr>d_year = 2024, d_month = 3, d_day = 12\<rparr> ''morning''
     (mark_sent ''1'' \<lparr>d_year = 2024, d_month = 3, d_day = 12\<rparr> ''morning'' ten_day_world)) \<and>
   ledger_of ''1'' (mark_sent ''1'' \<lparr>d_year = 2024, d_month = 3, d_day = 12\<rparr> ''morning''
     ten_day_world) = march_days 3 12"
proof -
  have ok: "world_ok ten_day_world"
    by code_simp
  have few: "later_days (isoformat \<lparr>d_year = 2024, d_month = 3, d_day = 12\<rparr>)
      (ledger_of ''1'' ten_day_world) < 10"
    by code_simp
  have led: "ledger_of ''1'' (mark_sent ''1'' \<lparr>d_year = 2024, d_month = 3, d_day = 12\<rparr>
      ''morning'' ten_day_world) = march_days 3 12"
    by code_simp
  note mark_sent_idempotent [OF ok, of "''1''" "\<lparr>d_year = 2024, d_month = 3, d_day = 12\<rparr>"
      "''morning''"]
  with ok few led show ?thesis
    by blast
qed

text \<open>
  The ledger of \<^const>\<open>ten_day_world\<close> holds the ten days from 2024-03-02 to 2024-03-11. Marking
  a key for 2024-03-01 adds that day as the eleventh and prunes it at once: the ledger is
  as before and \<^verbatim>\<open>was_sent\<close> returns false right after \<^verbatim>\<open>mark_sent\<close>.
\<close>

theorem mark_sent_evicted:
  "world_ok ten_day_world \<and>
   ledger_of ''1'' (mark_sent ''1'' \<lparr>d_year = 2024, d_month = 3, d_day = 1\<rparr> ''iftar-5''
     ten_day_world) = ledger_of ''1'' ten_day_world \<and>
   fst (was_sent ''1'' \<lparr>d_year = 2024, d_month = 3, d_day = 1\<rparr> ''iftar-5''
     (mark_sent ''1'' \<lparr>d_year = 2024, d_month = 3, d_day = 1\<rparr> ''iftar-5'' ten_day_world)) = False"
  by code_simp

text \<open>
  C10. For a user id that the dictionary does not have, \<^verbatim>\<open>was_sent\<close> returns false, and it
  leaves a state in which the id has the default settings and \<^verbatim>\<open>users.json\<close> holds the
  whole dictionary; \<^verbatim>\<open>mark_sent\<close> creates the record in the same way, with the key marked
  in it.
\<close>

theorem was_sent_creates_user:
  assumes "map_of (users w) uid = None"
  shows "was_sent uid day key w =
      (False,
       w\<lparr>users := users w @ [(uid, UserSettings_default)],
         users_json := Some (users w @ [(uid, UserSettings_default)])\<rparr>) \<and>
    mark_sent uid day key w =
      w\<lparr>users := users w @ [(uid, UserSettings_default\<lparr>sent_keys := [(isoformat day, [key])]\<rparr>)],
        users_json :=
          Some (users w @ [(uid, UserSettings_default\<lparr>sent_keys := [(isoformat day, [key])]\<rparr>)])\<rparr>"
proof -
  note g = get_user_absent [OF assms]
  have ws: "was_sent uid day key w =
      (False,
       w\<lparr>users := users w @ [(uid, UserSettings_default)],
         users_json := Some (users w @ [(uid, UserSettings_default)])\<rparr>)"
    by (simp add: was_sent_def g UserSettings_default_fields day_keys_def)
  have ml: "marked_ledger (isoformat day) key [] = [(isoformat day, [key])]"
    by (simp add: marked_ledger_def day_keys_def prune_days_def)
  have up: "AList.update uid v (users w @ [(uid, UserSettings_default)]) = users w @ [(uid, v)]"
    for v
    using assms by (rule update_appended)
  have ms: "mark_sent uid day key w =
      w\<lparr>users := users w @ [(uid, UserSettings_default\<lparr>sent_keys := [(isoformat day, [key])]\<rparr>)],
        users_json :=
          Some (users w @ [(uid, UserSettings_default\<lparr>sent_keys := [(isoformat day, [key])]\<rparr>)])\<rparr>"
    by (simp add: mark_sent_eq g UserSettings_default_fields ml up save_users_def)
  from ws ms show ?thesis
    by (rule conjI)
qed

theorem was_sent_creates_user_witness:
  "map_of (users empty_world) ''42'' = None \<and>
   was_sent ''42'' \<lparr>d_year = 2024, d_month = 3, d_day = 1\<rparr> ''morning'' empty_world =
     (False,
      \<lparr>users = [(''42'', UserSettings_default)],
       users_json = Some [(''42'', UserSettings_default)], outbox = []\<rparr>) \<and>
   mark_sent ''42'' \<lparr>d_year = 2024, d_month = 3, d_day = 1\<rparr> ''morning'' empty_world =
     \<lparr>users = [(''42'', UserSettings_default\<lparr>sent_keys := [(''2024-03-01'', [''morning''])]\<rparr>)],
      users_json =
        Some [(''42'', UserSettings_default\<lparr>sent_keys := [(''2024-03-01'', [''morning''])]\<rparr>)],
      outbox = []\<rparr>"
proof -
  have a: "map_of (users empty_world) ''42'' = None"
    by (simp add: empty_world_def)
  have iso: "isoformat \<lparr>d_year = 2024, d_month = 3, d_day = 1\<rparr> = ''2024-03-01''"
    by code_simp
  from was_sent_creates_user [OF a, of "\<lparr>d_year = 2024, d_month = 3, d_day = 1\<rparr>" "''morning''"]
  show ?thesis
    using a by (simp add: iso empty_world_def)
qed

text \<open>
  C9. A record whose preset is not a name of \<^verbatim>\<open>PRESETS\<close> comes back from \<^verbatim>\<open>get_user\<close> with
  the default preset, at the first read and at every later one; the read corrects the
  record in the dictionary and leaves \<^verbatim>\<open>users.json\<close> as it is, and the next
  \<^verbatim>\<open>save_users\<close> writes the corrected record, as the one inside \<^verbatim>\<open>mark_sent\<close> does. The
  loop takes the lead times of the default preset for such a name, without an error.
\<close>

theorem get_user_heals_preset:
  assumes "map_of (users w) uid = Some u" "map_of PRESETS (preset u) = None"
  shows "get_user uid w =
      (u\<lparr>preset := DEFAULT_PRESET\<rparr>,
       w\<lparr>users := AList.update uid (u\<lparr>preset := DEFAULT_PRESET\<rparr>) (users w)\<rparr>) \<and>
    get_user uid (snd (get_user uid w)) = get_user uid w \<and>
    users_json (snd (get_user uid w)) = users_json w \<and>
    users_json (save_users (snd (get_user uid w))) =
      Some (AList.update uid (u\<lparr>preset := DEFAULT_PRESET\<rparr>) (users w)) \<and>
    (\<exists>table u'. users_json (mark_sent uid day key w) = Some table \<and>
       map_of table uid = Some u' \<and> preset u' = DEFAULT_PRESET) \<and>
    preset_lists (preset u) = Some \<lparr>iftar = [30, 15, 10, 5, 1], saharlik = [5]\<rparr> \<and>
    preset_lists (preset u) = preset_lists DEFAULT_PRESET"
proof -
  note g = get_user_unknown [OF assms]
  have again: "get_user uid (snd (get_user uid w)) = get_user uid w"
    using get_user_again [of uid w] by (cases "get_user uid w") auto
  have marked: "\<exists>table u'. users_json (mark_sent uid day key w) = Some table \<and>
       map_of table uid = Some u' \<and> preset u' = DEFAULT_PRESET"
    by (simp add: mark_sent_eq g save_users_def AList.update_conv')
  have lists: "preset_lists (preset u) = Some \<lparr>iftar = [30, 15, 10, 5, 1], saharlik = [5]\<rparr>"
    "preset_lists (preset u) = preset_lists DEFAULT_PRESET"
    using assms(2) by (simp_all add: preset_lists_def default_preset_known)
  show ?thesis
    using again marked lists by (simp add: g save_users_def)
qed

theorem get_user_heals_preset_witness:
  "map_of (users odd_preset_world) ''1'' = Some (UserSettings_default\<lparr>preset := ''weekly''\<rparr>) \<and>
   map_of PRESETS ''weekly'' = None \<and>
   get_user ''1'' odd_preset_world =
     (UserSettings_default,
      \<lparr>users = [(''1'', UserSettings_default)],
       users_json = Some [(''1'', UserSettings_default\<lparr>preset := ''weekly''\<rparr>)], outbox = []\<rparr>) \<and>
   users_json (save_users (snd (get_user ''1'' odd_preset_world))) =
     Some [(''1'', UserSettings_default)] \<and>
   preset_lists ''weekly'' = Some \<lparr>iftar = [30, 15, 10, 5, 1], saharlik = [5]\<rparr>"
proof -
  have a: "map_of (users odd_preset_world) ''1'' = Some (UserSettings_default\<lparr>preset := ''weekly''\<rparr>)"
    by (simp add: odd_preset_world_def)
  have b: "map_of PRESETS (preset (UserSettings_default\<lparr>preset := ''weekly''\<rparr>)) = None"
    by (simp add: PRESETS_def)
  have c: "UserSettings_default\<lparr>preset := DEFAULT_PRESET\<rparr> = UserSettings_default"
    by (simp add: UserSettings_default_def)
  note T = get_user_heals_preset [OF a b,
      of "\<lparr>d_year = 2024, d_month = 3, d_day = 1\<rparr>" "''morning''"]
  from T have t1: "get_user ''1'' odd_preset_world =
      (UserSettings_default\<lparr>preset := ''weekly'', preset := DEFAULT_PRESET\<rparr>,
       odd_preset_world\<lparr>users := AList.update ''1''
         (UserSettings_default\<lparr>preset := ''weekly'', preset := DEFAULT_PRESET\<rparr>)
         (users odd_preset_world)\<rparr>)"
    by blast
  from T have t2: "users_json (save_users (snd (get_user ''1'' odd_preset_world))) =
      Some (AList.update ''1''
        (UserSettings_default\<lparr>preset := ''weekly'', preset := DEFAULT_PRESET\<rparr>)
        (users odd_preset_world))"
    by blast
  from T have t3: "preset_lists (preset (UserSettings_default\<lparr>preset := ''weekly''\<rparr>)) =
      Some \<lparr>iftar = [30, 15, 10, 5, 1], saharlik = [5]\<rparr>"
    by blast
  have b': "map_of PRESETS ''weekly'' = None"
    using b by simp
  have g: "get_user ''1'' odd_preset_world =
     (UserSettings_default,
      \<lparr>users = [(''1'', UserSettings_default)],
       users_json = Some [(''1'', UserSettings_default\<lparr>preset := ''weekly''\<rparr>)], outbox = []\<rparr>)"
    unfolding t1 by (simp add: c odd_preset_world_def)
  have s: "users_json (save_users (snd (get_user ''1'' odd_preset_world))) =
     Some [(''1'', UserSettings_default)]"
    unfolding t2 by (simp add: c odd_preset_world_def)
  have l: "preset_lists ''weekly'' = Some \<lparr>iftar = [30, 15, 10, 5, 1], saharlik = [5]\<rparr>"
    using t3 by simp
  from a b' g s l show ?thesis
    by (intro conjI)
qed

section \<open>The pruning of the ledger\<close>

subsection \<open>The order of the ISO strings is the order of the dates\<close>

lemma digit_order:
  assumes "is_digit a" "is_digit b"
  shows "a < b \<longleftrightarrow> digit_val a < digit_val b" "a = b \<longleftrightarrow> digit_val a = digit_val b"
    "digit_val a \<le> 9"
proof -
  have inj: "a = b \<longleftrightarrow> (of_char a :: nat) = of_char b"
    by (simp add: of_char_eq_iff)
  have lt: "a < b \<longleftrightarrow> (of_char a :: nat) < of_char b"
    by (rule less_char_def)
  from assms have bounds: "48 \<le> (of_char a :: nat)" "(of_char a :: nat) \<le> 57"
    "48 \<le> (of_char b :: nat)" "(of_char b :: nat) \<le> 57"
    by (simp_all add: is_digit_def)
  show "a < b \<longleftrightarrow> digit_val a < digit_val b"
    unfolding lt digit_val_def using bounds by arith
  show "a = b \<longleftrightarrow> digit_val a = digit_val b"
    unfolding inj digit_val_def using bounds by arith
  show "digit_val a \<le> 9"
    unfolding digit_val_def using bounds by arith
qed

lemma less_append_same_length:
  fixes A A' :: "'a :: linorder list"
  shows "length A = length A' \<Longrightarrow> A @ B < A' @ B' \<longleftrightarrow> A < A' \<or> A = A' \<and> B < B'"
  by (induction A A' rule: list_induct2) auto

lemma last_digit_order:
  fixes n n' x x' :: nat
  assumes "x \<le> 9" "x' \<le> 9"
  shows "10 * n + x < 10 * n' + x' \<longleftrightarrow> n < n' \<or> n = n' \<and> x < x'"
    "10 * n + x = 10 * n' + x' \<longleftrightarrow> n = n' \<and> x = x'"
proof -
  have up: "10 * n + x < 10 * n' + x'" if "n < n'"
    using that assms by linarith
  have down: "10 * n' + x' < 10 * n + x" if "n' < n"
    using that assms by linarith
  show "10 * n + x < 10 * n' + x' \<longleftrightarrow> n < n' \<or> n = n' \<and> x < x'"
  proof (cases n n' rule: linorder_cases)
    case less
    with up show ?thesis by simp
  next
    case equal
    then show ?thesis by simp
  next
    case greater
    with down [OF greater] show ?thesis by simp
  qed
  show "10 * n + x = 10 * n' + x' \<longleftrightarrow> n = n' \<and> x = x'"
  proof (cases n n' rule: linorder_cases)
    case less
    with up [OF less] show ?thesis by simp
  next
    case equal
    then show ?thesis by simp
  next
    case greater
    with down [OF greater] show ?thesis by simp
  qed
qed

lemma digits_order:
  assumes "length xs = length ys" "list_all is_digit xs" "list_all is_digit ys"
  shows "(xs < ys \<longleftrightarrow>
      foldl (\<lambda>acc c. 10 * acc + digit_val c) 0 xs < foldl (\<lambda>acc c. 10 * acc + digit_val c) 0 ys) \<and>
    (xs = ys \<longleftrightarrow>
      foldl (\<lambda>acc c. 10 * acc + digit_val c) 0 xs = foldl (\<lambda>acc c. 10 * acc + digit_val c) 0 ys)"
  using assms
proof (induction xs arbitrary: ys rule: rev_induct)
  case Nil
  then show ?case by simp
next
  case (snoc x xs)
  from snoc.prems(1) obtain y ys' where ys: "ys = ys' @ [y]"
    by (cases ys rule: rev_cases) auto
  with snoc.prems have len: "length xs = length ys'" and dx: "is_digit x" "list_all is_digit xs"
    and dy: "is_digit y" "list_all is_digit ys'"
    by auto
  note IH = snoc.IH [OF len dx(2) dy(2)]
  note D = digit_order(1,2) [OF dx(1) dy(1)]
  have le: "digit_val x \<le> 9" "digit_val y \<le> 9"
    using digit_order(3) [OF dx(1) dx(1)] digit_order(3) [OF dy(1) dy(1)] by simp_all
  note L = last_digit_order [OF le]
  have lex: "xs @ [x] < ys' @ [y] \<longleftrightarrow> xs < ys' \<or> xs = ys' \<and> x < y"
    using less_append_same_length [OF len, of "[x]" "[y]"] by simp
  show ?case
    unfolding ys lex by (simp add: L IH D)
qed

lemma zero_pad_order:
  assumes "0 \<le> i" "i < 10 ^ w" "0 \<le> j" "j < 10 ^ w" "0 < w"
  shows "zero_pad w i < zero_pad w j \<longleftrightarrow> i < j" "zero_pad w i = zero_pad w j \<longleftrightarrow> i = j"
proof -
  have len: "length (zero_pad w i) = length (zero_pad w j)"
    using assms by (simp add: length_zero_pad)
  note O = digits_order [OF len zero_pad_digits zero_pad_digits]
  have v: "foldl (\<lambda>acc c. 10 * acc + digit_val c) 0 (zero_pad w k) = nat k" for k
    by (simp add: zero_pad_def Let_def foldl_zeros foldl_digits_of)
  show "zero_pad w i < zero_pad w j \<longleftrightarrow> i < j" "zero_pad w i = zero_pad w j \<longleftrightarrow> i = j"
    using O assms(1,3) by (auto simp: v)
qed

lemma isoformat_less:
  assumes "valid_date a" "valid_date b"
  shows "isoformat a < isoformat b \<longleftrightarrow> date_less a b"
proof -
  have bounds: "0 \<le> d_year d \<and> d_year d < 10 ^ 4 \<and> 0 \<le> d_month d \<and> d_month d < 10 ^ 2 \<and>
      0 \<le> d_day d \<and> d_day d < 10 ^ 2" if "valid_date d" for d
    using that days_in_month_le [of "d_month d" "d_year d"] by (auto simp: valid_date_def)
  note A = bounds [OF assms(1)] and B = bounds [OF assms(2)]
  have Y: "zero_pad 4 (d_year a) < zero_pad 4 (d_year b) \<longleftrightarrow> d_year a < d_year b"
    "zero_pad 4 (d_year a) = zero_pad 4 (d_year b) \<longleftrightarrow> d_year a = d_year b"
    using A B by (simp_all add: zero_pad_order)
  have M: "zero_pad 2 (d_month a) < zero_pad 2 (d_month b) \<longleftrightarrow> d_month a < d_month b"
    "zero_pad 2 (d_month a) = zero_pad 2 (d_month b) \<longleftrightarrow> d_month a = d_month b"
    using A B by (simp_all add: zero_pad_order)
  have K: "zero_pad 2 (d_day a) < zero_pad 2 (d_day b) \<longleftrightarrow> d_day a < d_day b"
    using A B by (simp_all add: zero_pad_order)
  have ly: "length (zero_pad 4 (d_year a)) = length (zero_pad 4 (d_year b))"
    using A B by (simp add: length_zero_pad)
  have lm: "length (zero_pad 2 (d_month a)) = length (zero_pad 2 (d_month b))"
    using A B by (simp add: length_zero_pad)
  have "isoformat a < isoformat b \<longleftrightarrow>
      zero_pad 4 (d_year a) < zero_pad 4 (d_year b) \<or>
      zero_pad 4 (d_year a) = zero_pad 4 (d_year b) \<and>
      (zero_pad 2 (d_month a) < zero_pad 2 (d_month b) \<or>
       zero_pad 2 (d_month a) = zero_pad 2 (d_month b) \<and>
       zero_pad 2 (d_day a) < zero_pad 2 (d_day b))"
    unfolding isoformat_def
    by (simp add: less_append_same_length [OF ly] less_append_same_length [OF lm])
  also have "\<dots> \<longleftrightarrow> date_less a b"
    unfolding Y M K by (auto simp: date_less_def less_prod_def)
  finally show ?thesis .
qed

subsection \<open>The most recent ten days\<close>

lemma latest_days_subset: "latest_days S \<subseteq> S"
  by (auto simp: latest_days_def)

lemma latest_days_kept:
  assumes "distinct ks"
  shows "latest_days (set ks) = set (kept_days ks)"
proof -
  have "length (filter (\<lambda>y. x < y) ks) = card {y \<in> set ks. x < y}" for x
  proof -
    have "{y \<in> set ks. x < y} = {y. x < y} \<inter> set ks"
      by auto
    then show ?thesis
      using distinct_length_filter [OF assms, of "\<lambda>y. x < y"] by simp
  qed
  then show ?thesis
    by (auto simp: latest_days_def kept_days_iff [OF assms])
qed

lemma card_latest_days:
  assumes "finite S"
  shows "card (latest_days S) = min 10 (card S)"
proof -
  from finite_distinct_list [OF assms] obtain ks where ks: "set ks = S" "distinct ks"
    by blast
  have "distinct (kept_days ks)"
    using ks(2) by (simp add: kept_days_def Let_def)
  then have "card (set (kept_days ks)) = min 10 (length ks)"
    by (simp add: distinct_card kept_days_length)
  then show ?thesis
    using latest_days_kept [OF ks(2)] ks distinct_card [OF ks(2)] by simp
qed

lemma latest_days_up:
  assumes "finite S" "y \<in> latest_days S" "z \<in> S" "y < z"
  shows "z \<in> latest_days S"
proof -
  have "{w \<in> S. z < w} \<subseteq> {w \<in> S. y < w}"
    using assms(4) by auto
  moreover have "finite {w \<in> S. y < w}"
    using assms(1) by simp
  ultimately have "card {w \<in> S. z < w} \<le> card {w \<in> S. y < w}"
    by (intro card_mono)
  with assms(2,3) show ?thesis
    by (simp add: latest_days_def)
qed

lemma latest_days_small:
  assumes "finite S" "card S \<le> 10"
  shows "latest_days S = S"
proof -
  have "card (latest_days S) = card S"
    using assms by (simp add: card_latest_days)
  then show ?thesis
    using assms(1) latest_days_subset [of S] by (simp add: card_subset_eq)
qed

lemma latest_days_insert:
  assumes fin: "finite S"
  shows "latest_days (insert x (latest_days S)) = latest_days (insert x S)"
proof -
  let ?T = "latest_days S"
  have finT: "finite ?T"
    using fin latest_days_subset [of S] by (rule rev_finite_subset)
  have sub: "{w \<in> insert x ?T. y < w} \<subseteq> {w \<in> insert x S. y < w}" for y
    using latest_days_subset [of S] by auto
  have same: "{w \<in> insert x ?T. y < w} = {w \<in> insert x S. y < w}" if "y \<in> ?T" for y
    using latest_days_up [OF fin that] latest_days_subset [of S] by auto
  show ?thesis
  proof (intro set_eqI iffI)
    fix y
    assume y: "y \<in> latest_days (insert x ?T)"
    then have mem: "y \<in> insert x ?T" and few: "card {w \<in> insert x ?T. y < w} < 10"
      by (simp_all add: latest_days_def)
    have "card {w \<in> insert x S. y < w} < 10"
    proof (cases "y \<in> ?T")
      case True
      with few same show ?thesis by simp
    next
      case False
      with mem have yx: "y = x" by simp
      have "{w \<in> S. x < w} \<subseteq> ?T"
      proof (rule ccontr)
        assume "\<not> {w \<in> S. x < w} \<subseteq> ?T"
        then obtain z where z: "z \<in> S" "x < z" "z \<notin> ?T"
          by auto
        have above: "z < t" if "t \<in> ?T" for t
        proof (rule ccontr)
          assume nz: "\<not> z < t"
          have "t \<noteq> z"
            using that z(3) by auto
          with nz have "t < z"
            using linorder_less_linear [of z t] by auto
          from latest_days_up [OF fin that z(1) this] z(3) show False by simp
        qed
        then have "?T \<subseteq> {w \<in> insert x ?T. x < w}"
          using z(2) by (auto intro: less_trans)
        moreover have "finite {w \<in> insert x ?T. x < w}"
          using finT by simp
        ultimately have "card ?T \<le> card {w \<in> insert x ?T. x < w}"
          by (intro card_mono)
        with few yx have "card ?T < 10" by simp
        then have "card S < 10"
          using card_latest_days [OF fin] by simp
        then have "?T = S"
          using fin by (intro latest_days_small) simp_all
        with z(1,3) show False by simp
      qed
      then have "{w \<in> insert x S. x < w} = {w \<in> insert x ?T. x < w}"
        using latest_days_subset [of S] by auto
      with few yx show ?thesis by simp
    qed
    with mem latest_days_subset [of S] show "y \<in> latest_days (insert x S)"
      by (auto simp: latest_days_def)
  next
    fix y
    assume y: "y \<in> latest_days (insert x S)"
    then have mem: "y \<in> insert x S" and few: "card {w \<in> insert x S. y < w} < 10"
      by (simp_all add: latest_days_def)
    have finS: "finite {w \<in> insert x S. y < w}"
      using fin by simp
    have "card {w \<in> insert x ?T. y < w} \<le> card {w \<in> insert x S. y < w}"
      using sub finS by (intro card_mono)
    with few have few': "card {w \<in> insert x ?T. y < w} < 10"
      by simp
    have "y \<in> insert x ?T"
    proof (cases "y = x")
      case True
      then show ?thesis by simp
    next
      case False
      with mem have yS: "y \<in> S" by simp
      have "{w \<in> S. y < w} \<subseteq> {w \<in> insert x S. y < w}"
        by auto
      then have "card {w \<in> S. y < w} \<le> card {w \<in> insert x S. y < w}"
        using finS by (intro card_mono)
      with few yS show ?thesis
        by (simp add: latest_days_def)
    qed
    with few' show "y \<in> latest_days (insert x ?T)"
      by (simp add: latest_days_def)
  qed
qed

subsection \<open>What a call does to the days of the ledger\<close>

lemma marked_ledger_old:
  "key \<in> set (day_keys ds sk) \<Longrightarrow> marked_ledger ds key sk = sk"
  by (simp add: marked_ledger_def)

lemma day_keys_mem:
  assumes "key \<in> set (day_keys ds sk)"
  shows "ds \<in> set (map fst sk)"
proof -
  from assms have "map_of sk ds \<noteq> None"
    by (cases "map_of sk ds") (simp_all add: day_keys_def)
  then show ?thesis
    by (simp add: map_of_eq_None_iff)
qed

lemma marked_ledger_days:
  assumes "distinct (map fst sk)" "key \<notin> set (day_keys ds sk)"
  shows "set (map fst (marked_ledger ds key sk)) = latest_days (insert ds (set (map fst sk)))"
proof -
  define L where "L = AList.update ds (day_keys ds sk @ [key]) sk"
  have dL: "distinct (map fst L)"
    unfolding L_def using assms(1) by (rule AList.distinct_update)
  have keys: "set (map fst L) = insert ds (set (map fst sk))"
    by (auto simp: L_def AList.update_keys)
  have "marked_ledger ds key sk = prune_days L"
    using assms(2) by (simp add: marked_ledger_def L_def)
  also have "\<dots> = filter (\<lambda>e. fst e \<in> set (kept_days (map fst L))) L"
    using dL by (rule prune_days_filter)
  finally have "set (map fst (marked_ledger ds key sk)) =
      {x \<in> set (map fst L). x \<in> set (kept_days (map fst L))}"
    by auto
  also have "\<dots> = latest_days (set (map fst L))"
    using latest_days_kept [OF dL] latest_days_subset [of "set (map fst L)"] by auto
  finally show ?thesis
    by (simp only: keys)
qed

lemma marked_ledger_latest:
  assumes "distinct (map fst sk)" "latest_days (set (map fst sk)) = set (map fst sk)"
  shows "set (map fst (marked_ledger ds key sk)) = latest_days (insert ds (set (map fst sk)))"
proof (cases "key \<in> set (day_keys ds sk)")
  case True
  then have "insert ds (set (map fst sk)) = set (map fst sk)"
    using day_keys_mem [OF True] by auto
  with True assms(2) show ?thesis
    by (simp add: marked_ledger_old)
next
  case False
  with assms(1) show ?thesis
    by (rule marked_ledger_days)
qed

lemma mark_all_snoc:
  "mark_all uid (marks @ [(day, key)]) w = mark_sent uid day key (mark_all uid marks w)"
  by (simp add: mark_all_def)

lemma mark_all_ok: "world_ok w \<Longrightarrow> world_ok (mark_all uid marks w)"
  by (induction marks rule: rev_induct) (auto simp: mark_all_snoc mark_all_def mark_sent_ok)

lemma mark_all_days:
  assumes "world_ok w" "length (ledger_of uid w) \<le> 10"
  shows "set (map fst (ledger_of uid (mark_all uid marks w))) =
    latest_days (set (map fst (ledger_of uid w)) \<union> (\<lambda>m. isoformat (fst m)) ` set marks)"
proof (induction marks rule: rev_induct)
  case Nil
  have "card (set (map fst (ledger_of uid w))) \<le> 10"
    using assms(2) card_length [of "map fst (ledger_of uid w)"] by simp
  then show ?case
    by (simp add: mark_all_def latest_days_small)
next
  case (snoc m marks)
  obtain day key where m: "m = (day, key)"
    by (cases m) auto
  let ?w = "mark_all uid marks w"
  let ?S = "set (map fst (ledger_of uid w)) \<union> (\<lambda>m. isoformat (fst m)) ` set marks"
  have fin: "finite ?S"
    by simp
  have ok: "world_ok ?w"
    using assms(1) by (rule mark_all_ok)
  have d: "distinct (map fst (ledger_of uid ?w))"
    using ok by (rule ledger_of_distinct)
  have idem: "latest_days (set (map fst (ledger_of uid ?w))) = set (map fst (ledger_of uid ?w))"
  proof -
    have "card (latest_days ?S) \<le> 10"
      using card_latest_days [OF fin] by simp
    moreover have "finite (latest_days ?S)"
      using fin latest_days_subset [of ?S] by (rule rev_finite_subset)
    ultimately show ?thesis
      unfolding snoc.IH by (rule latest_days_small [rotated])
  qed
  have "set (map fst (ledger_of uid (mark_all uid (marks @ [m]) w))) =
      latest_days (insert (isoformat day) (set (map fst (ledger_of uid ?w))))"
    using marked_ledger_latest [OF d idem]
    by (simp add: m mark_all_snoc ledger_of_mark_sent)
  also have "\<dots> = latest_days (insert (isoformat day) ?S)"
    unfolding snoc.IH using fin by (rule latest_days_insert)
  finally show ?case
    by (simp add: m Un_commute insert_commute)
qed

end
